theory Spec2Isabelle
  imports Complex_Main "HOL-Library.Sublist"
begin

section \<open>Python strings\<close>

text \<open>
  Identifiers, headers and bodies are Python \<open>str\<close> values, modelled as \<open>string\<close>
  (a list of characters). Case mapping is the ASCII one: \<open>str.lower\<close> and \<open>str.upper\<close>
  send \<open>A..Z\<close> to \<open>a..z\<close> and back and leave every other character of the model alone.
\<close>

definition ascii_uppercase :: string where
  "ascii_uppercase = ''ABCDEFGHIJKLMNOPQRSTUVWXYZ''"

definition ascii_lowercase :: string where
  "ascii_lowercase = ''abcdefghijklmnopqrstuvwxyz''"

definition lower_char :: "char \<Rightarrow> char" where
  "lower_char c =
     (case map_of (zip ascii_uppercase ascii_lowercase) c of Some d \<Rightarrow> d | None \<Rightarrow> c)"

definition upper_char :: "char \<Rightarrow> char" where
  "upper_char c =
     (case map_of (zip ascii_lowercase ascii_uppercase) c of Some d \<Rightarrow> d | None \<Rightarrow> c)"

definition lower :: "string \<Rightarrow> string" where
  "lower s = map lower_char s"

definition upper :: "string \<Rightarrow> string" where
  "upper s = map upper_char s"

text \<open>
  \<open>str.strip()\<close> removes leading and trailing whitespace: tab, line feed, vertical tab,
  form feed, carriage return, the separators \<open>0x1C..0x1F\<close> and the space.
\<close>

definition whitespace :: string where
  "whitespace = [CHR 0x09, CHR 0x0A, CHR 0x0B, CHR 0x0C, CHR 0x0D,
                 CHR 0x1C, CHR 0x1D, CHR 0x1E, CHR 0x1F, CHR 0x20]"

definition isspace :: "char \<Rightarrow> bool" where
  "isspace c = (c \<in> set whitespace)"

definition lstrip :: "string \<Rightarrow> string" where
  "lstrip s = dropWhile isspace s"

definition rstrip :: "string \<Rightarrow> string" where
  "rstrip s = rev (dropWhile isspace (rev s))"

definition strip :: "string \<Rightarrow> string" where
  "strip s = rstrip (lstrip s)"

text \<open>\<open>p in s\<close> on strings: \<open>p\<close> occurs in \<open>s\<close> as a contiguous block.\<close>

fun contains :: "string \<Rightarrow> string \<Rightarrow> bool" where
  "contains [] p = (p = [])"
| "contains (c # cs) p = (prefix p (c # cs) \<or> contains cs p)"

text \<open>\<open>xs[-n:]\<close> for a positive \<open>n\<close>: the last \<open>n\<close> elements, all of \<open>xs\<close> when it is shorter.\<close>

definition last_n :: "nat \<Rightarrow> 'a list \<Rightarrow> 'a list" where
  "last_n n xs = drop (length xs - n) xs"

section \<open>Exceptions and the retry wrapper\<close>

text \<open>
  \<open>retry_gmail_operation\<close> catches \<open>ssl.SSLError\<close>, \<open>HttpError\<close>, \<open>ConnectionError\<close> and
  \<open>OSError\<close>; every other exception class is \<open>OtherError\<close>. An exception carries its
  message, the text of \<open>str(e)\<close>.
\<close>

datatype exn_class = SSLError | HttpError | ConnectionError | OSError | OtherError

datatype py_exception = Exception (exn_class: exn_class) (message: string)

fun transient :: "exn_class \<Rightarrow> bool" where
  "transient SSLError = True"
| "transient HttpError = True"
| "transient ConnectionError = True"
| "transient OSError = True"
| "transient OtherError = False"

text \<open>
  One invocation of the wrapped operation either returns a Python value (\<open>None\<close> included)
  or raises. The operation is an effectful thunk, so it is given as the outcome of its
  invocations by number, from 0.
\<close>

datatype 'a attempt = Returns "'a option" | Raises py_exception

text \<open>
  What a call of \<open>retry_gmail_operation\<close> hands to its caller: a value, \<open>None\<close> (the
  unavailable sentinel, which is also what an operation returning \<open>None\<close> gives), or an
  exception that it lets through.
\<close>

datatype 'a fetched = Value 'a | Unavailable | Raised py_exception

record 'a retry_run =
  result :: "'a fetched"
  calls :: nat
  sleeps :: "nat list"

text \<open>
  The loop \<open>for attempt in range(max_retries)\<close>, from iteration \<open>attempt\<close> with \<open>remaining\<close>
  iterations to go. The run records how often the operation was invoked and the arguments of
  \<open>time.sleep\<close>, in order.
\<close>

fun retry_from :: "(nat \<Rightarrow> 'a attempt) \<Rightarrow> nat \<Rightarrow> nat \<Rightarrow> nat \<Rightarrow> nat \<Rightarrow> 'a retry_run" where
  "retry_from operation max_retries delay attempt 0 =
     \<lparr>result = Unavailable, calls = 0, sleeps = []\<rparr>"
| "retry_from operation max_retries delay attempt (Suc remaining) =
     (case operation attempt of
        Returns v \<Rightarrow>
          \<lparr>result = (case v of Some x \<Rightarrow> Value x | None \<Rightarrow> Unavailable), calls = 1, sleeps = []\<rparr>
      | Raises e \<Rightarrow>
          if transient (exn_class e) then
            if attempt = max_retries - 1 then \<lparr>result = Unavailable, calls = 1, sleeps = []\<rparr>
            else
              (let r = retry_from operation max_retries delay (Suc attempt) remaining
               in r\<lparr>calls := Suc (calls r), sleeps := delay * 2 ^ attempt # sleeps r\<rparr>)
          else \<lparr>result = Raised e, calls = 1, sleeps = []\<rparr>)"

definition retry_gmail_operation :: "(nat \<Rightarrow> 'a attempt) \<Rightarrow> nat \<Rightarrow> nat \<Rightarrow> 'a retry_run" where
  "retry_gmail_operation operation max_retries delay =
     retry_from operation max_retries delay 0 max_retries"

text \<open>The defaults of the signature: \<open>max_retries=3, delay=2\<close>.\<close>

definition retry_gmail_operation_default :: "(nat \<Rightarrow> 'a attempt) \<Rightarrow> 'a retry_run" where
  "retry_gmail_operation_default operation = retry_gmail_operation operation 3 2"

section \<open>The handler's state and its clean-up\<close>

text \<open>
  The fields of \<open>NotificationHandler\<close> that the notification pipeline reads and writes.
  A history id is whatever value the notification carries under \<open>historyId\<close>, so its type
  is a parameter. Times are seconds since the epoch, as \<open>time.time()\<close> gives them.
\<close>

record 'h handler =
  processed_messages :: "string set"
  processed_history_ids :: "'h set"
  last_cleanup_time :: real
  server_start_time :: real
  sent_message_ids :: "string set"

text \<open>
  \<open>list(s)\<close> on a Python set lists its elements once each, in an order the language does not
  fix. The conversion is therefore a parameter of the clean-up; \<open>enumerates\<close> says what
  every such conversion satisfies on a given set.
\<close>

definition enumerates :: "('a set \<Rightarrow> 'a list) \<Rightarrow> 'a set \<Rightarrow> bool" where
  "enumerates to_list S = (set (to_list S) = S \<and> distinct (to_list S))"

definition trim :: "('a set \<Rightarrow> 'a list) \<Rightarrow> nat \<Rightarrow> nat \<Rightarrow> 'a set \<Rightarrow> 'a set" where
  "trim to_list limit keep S =
     (if card S > limit then set (last_n keep (to_list S)) else S)"

definition cleanup_processed_messages ::
  "('h set \<Rightarrow> 'h list) \<Rightarrow> (string set \<Rightarrow> string list) \<Rightarrow> real \<Rightarrow> 'h handler \<Rightarrow> 'h handler" where
  "cleanup_processed_messages list_h list_m current_time self =
     (if current_time - last_cleanup_time self > 3600 then
        self\<lparr>processed_messages := trim list_m 100 50 (processed_messages self),
             processed_history_ids := trim list_h 100 50 (processed_history_ids self),
             sent_message_ids := trim list_m 50 25 (sent_message_ids self),
             last_cleanup_time := current_time\<rparr>
      else self)"

text \<open>
  The compaction as the specification words it: every set has the soft limit 100, and
  \<open>sentReplyIds\<close> is cut to 25 once it exceeds that.
\<close>

definition spec_compact_sent :: "(string set \<Rightarrow> string list) \<Rightarrow> string set \<Rightarrow> string set" where
  "spec_compact_sent list_m S = trim list_m 100 25 S"

text \<open>Sample identifiers \<open>m\<close>, \<open>mm\<close>, \<open>mmm\<close>, ...: the first \<open>n\<close> of them.\<close>

definition sample_ids :: "nat \<Rightarrow> string list" where
  "sample_ids n = map (\<lambda>k. replicate k (CHR ''m'')) [1..<Suc n]"

text \<open>One possible \<open>list(s)\<close>: the sample identifiers that are in \<open>s\<close>, shortest first.\<close>

definition sample_order :: "nat \<Rightarrow> string set \<Rightarrow> string list" where
  "sample_order n S = filter (\<lambda>x. x \<in> S) (sample_ids n)"

definition sample_handler :: "nat \<Rightarrow> nat \<Rightarrow> nat \<Rightarrow> string handler" where
  "sample_handler p h r =
     \<lparr>processed_messages = set (sample_ids p), processed_history_ids = set (sample_ids h),
      last_cleanup_time = 0, server_start_time = 0, sent_message_ids = set (sample_ids r)\<rparr>"

section \<open>The eligibility filter\<close>

text \<open>
  The address and the subject that \<open>is_valid_claude_email\<close> compares with; \<open>Config\<close> holds
  the same two values as \<open>target_email\<close> and \<open>required_subject\<close>.
\<close>

definition target_email :: string where
  "target_email = ''jonathanmingli@gmail.com''"

definition required_subject :: string where
  "required_subject = ''CLAUDE''"

text \<open>
  \<open>is_valid_claude_email\<close> fetches sender, recipient and subject through the retry wrapper,
  in this order, inside a \<open>try\<close> that turns every exception into a refusal. The model takes
  what the three fetches give.
\<close>

definition is_valid_claude_email ::
  "string fetched \<Rightarrow> string fetched \<Rightarrow> string fetched \<Rightarrow> bool \<times> string" where
  "is_valid_claude_email sender recipient subj =
     (case sender of
        Raised e \<Rightarrow> (False, ''Error checking email criteria: '' @ message e)
      | _ \<Rightarrow>
     (case recipient of
        Raised e \<Rightarrow> (False, ''Error checking email criteria: '' @ message e)
      | _ \<Rightarrow>
     (case subj of
        Raised e \<Rightarrow> (False, ''Error checking email criteria: '' @ message e)
      | _ \<Rightarrow>
     (case (sender, recipient, subj) of
        (Value sender_v, Value recipient_v, Value subject_v) \<Rightarrow>
          if lower sender_v \<noteq> target_email then
            (False, ''Sender '' @ sender_v @ '' is not jonathanmingli@gmail.com'')
          else if lower recipient_v \<noteq> target_email then
            (False, ''Recipient '' @ recipient_v @ '' is not jonathanmingli@gmail.com'')
          else if upper subject_v \<noteq> required_subject then
            (False, ''Subject '' @ [CHR 0x27] @ subject_v @ [CHR 0x27] @ '' is not ''
                    @ [CHR 0x27] @ ''CLAUDE'' @ [CHR 0x27])
          else (True, ''Email meets all criteria for Claude processing'')
      | _ \<Rightarrow> (False, ''Failed to retrieve email details due to network errors'')))))"

text \<open>
  Eligibility as the specification words it: sender and recipient equal the target address
  and the subject equals the required subject, all three without regard to case, the subject
  after trimming.
\<close>

definition spec_isEligible :: "string \<Rightarrow> string \<Rightarrow> string \<Rightarrow> bool" where
  "spec_isEligible sender recipient subj =
     (lower sender = lower target_email \<and> lower recipient = lower target_email
      \<and> lower (strip subj) = lower required_subject)"

definition system_patterns :: "string list" where
  "system_patterns =
     [''ack'', ''Progress update:'', ''Task completed!'',
      ''Claude processing failed with error:'', ''Processing with Claude Code'',
      ''Claude response generated'']"

text \<open>The loop over \<open>system_patterns\<close>: the first pattern that occurs, if any.\<close>

fun first_pattern :: "string \<Rightarrow> string list \<Rightarrow> string option" where
  "first_pattern content_lower [] = None"
| "first_pattern content_lower (pattern # patterns) =
     (if contains content_lower (lower pattern) then Some pattern
      else first_pattern content_lower patterns)"

definition is_system_generated_email ::
  "'h handler \<Rightarrow> string \<Rightarrow> string \<Rightarrow> string \<Rightarrow> bool \<times> string" where
  "is_system_generated_email self content sender message_id =
     (if message_id \<in> sent_message_ids self then (True, ''Email was sent by this system'')
      else
        (let content_lower = strip (lower content) in
         case first_pattern content_lower system_patterns of
           Some pattern \<Rightarrow>
             (True, ''Email contains system pattern: '' @ [CHR 0x27] @ pattern @ [CHR 0x27])
         | None \<Rightarrow>
             if length content_lower < 10 then
               (True, ''Email is too short (likely system-generated)'')
             else (False, ''Email appears to be user-generated'')))"

section \<open>Processing one candidate message\<close>

text \<open>
  What the outside world does is the input of the model. An \<open>agent_run\<close> is one call of
  \<open>process_email_request_streaming\<close>: the texts it passes to the progress callback, in order,
  and how it ends, with a response or with an exception. An \<open>observation\<close> holds, for one
  pass of the loop over the candidates, what each call through the retry wrapper gives,
  in the order of the calls, and the agent's run.
\<close>

record agent_run =
  chunks :: "string list"
  ending :: "py_exception + string"

record observation =
  message_timestamp :: "real fetched"
  header_sender :: "string fetched"
  header_recipient :: "string fetched"
  header_subject :: "string fetched"
  message_content :: "string fetched"
  sender_email :: "string fetched"
  subject :: "string fetched"
  thread_id :: "string fetched"
  ack_reply :: "string fetched"
  agent :: agent_run
  progress_reply :: "nat \<Rightarrow> string fetched"
  final_reply :: "string fetched"
  error_reply :: "string fetched"

text \<open>
  The effects on the outside world, in order: a call of \<open>send_reply_email\<close> through the
  retry wrapper, with its four arguments (the thread id is a Python value, a string or
  \<open>None\<close>), and a call of the agent, tagged with the id of the message it is made for.
\<close>

datatype event =
    SendReply "string option" string string string
  | AgentInvoked string string string

text \<open>
  How a pass of the loop ends: the loop goes on, or an exception leaves it for the handler
  at the end of \<open>process_notification\<close>.
\<close>

datatype flow = Continue | Abort py_exception

fun truthy :: "string option \<Rightarrow> bool" where
  "truthy None = False"
| "truthy (Some s) = (s \<noteq> [])"

text \<open>
  The Python value that a fetch hands over when it lets no exception through: a value or
  \<open>None\<close>. The callers treat \<open>Raised\<close> before they use it.
\<close>

fun py_value :: "'a fetched \<Rightarrow> 'a option" where
  "py_value (Value v) = Some v"
| "py_value Unavailable = None"
| "py_value (Raised e) = None"

text \<open>\<open>if reply_id: self.sent_message_ids.add(reply_id)\<close>\<close>

definition track_sent :: "string fetched \<Rightarrow> 'h handler \<Rightarrow> 'h handler" where
  "track_sent reply_id self =
     (if truthy (py_value reply_id) then
        self\<lparr>sent_message_ids := insert (the (py_value reply_id)) (sent_message_ids self)\<rparr>
      else self)"

definition progress_email :: "string \<Rightarrow> string" where
  "progress_email update_text = ''Progress update:'' @ [CHR 0x0A, CHR 0x0A] @ update_text"

definition final_email :: "string \<Rightarrow> string" where
  "final_email response = ''Task completed!'' @ [CHR 0x0A, CHR 0x0A] @ response"

definition error_message :: "py_exception \<Rightarrow> string" where
  "error_message claude_error = ''Claude processing failed with error: '' @ message claude_error"

text \<open>The staleness test: \<open>message_timestamp and message_timestamp < self.server_start_time\<close>.\<close>

definition stale :: "real \<Rightarrow> real fetched \<Rightarrow> bool" where
  "stale server_start ts =
     (case ts of Value t \<Rightarrow> t \<noteq> 0 \<and> t < server_start | _ \<Rightarrow> False)"

datatype skip_reason =
    OldMessage
  | NotValid string
  | NetworkErrors
  | SystemGenerated string
  | NoSubject
  | EmptyMessage

datatype gate_result =
    Rejected skip_reason
  | Failed py_exception
  | Passed string string string

text \<open>The checks after the staleness test, up to the test for an empty message.\<close>

definition eligibility_gates :: "'h handler \<Rightarrow> string \<Rightarrow> observation \<Rightarrow> gate_result" where
  "eligibility_gates self message_id ob =
     (case is_valid_claude_email (header_sender ob) (header_recipient ob) (header_subject ob) of
        (False, reason) \<Rightarrow> Rejected (NotValid reason)
      | (True, _) \<Rightarrow>
     (case message_content ob of
        Raised e \<Rightarrow> Failed e
      | content_f \<Rightarrow>
     (case sender_email ob of
        Raised e \<Rightarrow> Failed e
      | sender_f \<Rightarrow>
     (case (content_f, sender_f) of
        (Value content, Value sender) \<Rightarrow>
          (case is_system_generated_email self content sender message_id of
             (True, system_reason) \<Rightarrow> Rejected (SystemGenerated system_reason)
           | (False, _) \<Rightarrow>
          (case subject ob of
             Raised e \<Rightarrow> Failed e
           | Unavailable \<Rightarrow> Rejected NoSubject
           | Value subj \<Rightarrow>
               if strip content = [] then Rejected EmptyMessage
               else Passed content sender subj))
      | _ \<Rightarrow> Rejected NetworkErrors))))"

definition gates :: "'h handler \<Rightarrow> string \<Rightarrow> observation \<Rightarrow> gate_result" where
  "gates self message_id ob =
     (case message_timestamp ob of
        Raised e \<Rightarrow> Failed e
      | ts \<Rightarrow>
          if stale (server_start_time self) ts then Rejected OldMessage
          else eligibility_gates self message_id ob)"

text \<open>
  \<open>progress_callback\<close> over the agent's chunks; \<open>n\<close> is \<open>len(progress_updates)\<close> before the
  chunk is appended. A send that lets an exception through ends the stream: the exception
  leaves the callback and the agent.
\<close>

fun progress_callbacks ::
  "'h handler \<Rightarrow> string option \<Rightarrow> string \<Rightarrow> string \<Rightarrow> (nat \<Rightarrow> string fetched) \<Rightarrow> nat \<Rightarrow> string list
    \<Rightarrow> 'h handler \<times> event list \<times> py_exception option" where
  "progress_callbacks self thread sender subj answers n [] = (self, [], None)"
| "progress_callbacks self thread sender subj answers n (update_text # rest) =
     (if truthy thread \<and> length update_text > 50 \<and> Suc n mod 3 = 0 then
        (case answers (Suc n) of
           Raised e \<Rightarrow>
             (self, [SendReply thread sender subj (progress_email update_text)], Some e)
         | progress_message_id \<Rightarrow>
             (case progress_callbacks (track_sent progress_message_id self) thread sender subj
                     answers (Suc n) rest of
                (self', evs, raised) \<Rightarrow>
                  (self', SendReply thread sender subj (progress_email update_text) # evs, raised)))
      else progress_callbacks self thread sender subj answers (Suc n) rest)"

text \<open>The acknowledgment: \<open>if thread_id: ... send_reply_email(thread_id, sender_email, subject, "ack")\<close>.\<close>

definition acknowledge ::
  "'h handler \<Rightarrow> string option \<Rightarrow> string \<Rightarrow> string \<Rightarrow> string fetched
    \<Rightarrow> 'h handler \<times> event list \<times> py_exception option" where
  "acknowledge self thread sender subj answer =
     (if truthy thread then
        (case answer of
           Raised e \<Rightarrow> (self, [SendReply thread sender subj ''ack''], Some e)
         | ack_message_id \<Rightarrow>
             (track_sent ack_message_id self, [SendReply thread sender subj ''ack''], None))
      else (self, [], None))"

text \<open>The handler \<open>except Exception as claude_error\<close>.\<close>

definition report_failure ::
  "'h handler \<Rightarrow> string option \<Rightarrow> string \<Rightarrow> string \<Rightarrow> py_exception \<Rightarrow> string fetched
    \<Rightarrow> 'h handler \<times> event list \<times> flow" where
  "report_failure self thread sender subj claude_error answer =
     (if truthy thread then
        (case answer of
           Raised e \<Rightarrow>
             (self, [SendReply thread sender subj (error_message claude_error)], Abort e)
         | error_message_id \<Rightarrow>
             (track_sent error_message_id self,
              [SendReply thread sender subj (error_message claude_error)], Continue))
      else (self, [], Continue))"

text \<open>
  The \<open>try\<close> block around the agent. An exception that leaves the progress callback is
  re-raised by the agent as \<open>Exception("Error launching Claude session: ...")\<close>; one that
  leaves the send of the final reply goes to the same handler.
\<close>

definition run_agent ::
  "'h handler \<Rightarrow> string \<Rightarrow> string option \<Rightarrow> string \<Rightarrow> string \<Rightarrow> string \<Rightarrow> observation
    \<Rightarrow> 'h handler \<times> event list \<times> flow" where
  "run_agent self message_id thread content sender subj ob =
     (case progress_callbacks self thread sender subj (progress_reply ob) 0 (chunks (agent ob)) of
        (self1, evs, Some e) \<Rightarrow>
          (case report_failure self1 thread sender subj
                  (Exception OtherError (''Error launching Claude session: '' @ message e))
                  (error_reply ob) of
             (self2, evs', fl) \<Rightarrow> (self2, AgentInvoked message_id content sender # evs @ evs', fl))
      | (self1, evs, None) \<Rightarrow>
          (case ending (agent ob) of
             Inl claude_error \<Rightarrow>
               (case report_failure self1 thread sender subj claude_error (error_reply ob) of
                  (self2, evs', fl) \<Rightarrow>
                    (self2, AgentInvoked message_id content sender # evs @ evs', fl))
           | Inr response \<Rightarrow>
               if truthy thread \<and> response \<noteq> [] then
                 (case final_reply ob of
                    Raised e \<Rightarrow>
                      (case report_failure self1 thread sender subj e (error_reply ob) of
                         (self2, evs', fl) \<Rightarrow>
                           (self2,
                            AgentInvoked message_id content sender # evs
                              @ SendReply thread sender subj (final_email response) # evs', fl))
                  | final_message_id \<Rightarrow>
                      (track_sent final_message_id self1,
                       AgentInvoked message_id content sender # evs
                         @ [SendReply thread sender subj (final_email response)], Continue))
               else (self1, AgentInvoked message_id content sender # evs, Continue)))"

text \<open>
  From "Mark as processed before starting Claude processing" to the end of the pass: the
  message id is added to \<open>processed_messages\<close>, the thread id is fetched, the acknowledgment
  is sent and the agent runs.
\<close>

definition dispatch ::
  "'h handler \<Rightarrow> string \<Rightarrow> observation \<Rightarrow> string \<Rightarrow> string \<Rightarrow> string
    \<Rightarrow> 'h handler \<times> event list \<times> flow" where
  "dispatch self message_id ob content sender subj =
     (let marked = self\<lparr>processed_messages := insert message_id (processed_messages self)\<rparr> in
      case thread_id ob of
        Raised e \<Rightarrow> (marked, [], Abort e)
      | thread_f \<Rightarrow>
          (case acknowledge marked (py_value thread_f) sender subj (ack_reply ob) of
             (self1, evs, Some e) \<Rightarrow> (self1, evs, Abort e)
           | (self1, evs, None) \<Rightarrow>
               (case run_agent self1 message_id (py_value thread_f) content sender subj ob of
                  (self2, evs', fl) \<Rightarrow> (self2, evs @ evs', fl))))"

text \<open>A pass for a message that the test \<open>message_id in self.processed_messages\<close> let through.\<close>

definition process_unseen ::
  "'h handler \<Rightarrow> string \<Rightarrow> observation \<Rightarrow> 'h handler \<times> event list \<times> flow" where
  "process_unseen self message_id ob =
     (case gates self message_id ob of
        Rejected reason \<Rightarrow> (self, [], Continue)
      | Failed e \<Rightarrow> (self, [], Abort e)
      | Passed content sender subj \<Rightarrow> dispatch self message_id ob content sender subj)"

text \<open>One pass of \<open>for i, msg in enumerate(recent_messages)\<close>, run without interruption.\<close>

definition process_candidate ::
  "'h handler \<Rightarrow> string \<Rightarrow> observation \<Rightarrow> 'h handler \<times> event list \<times> flow" where
  "process_candidate self message_id ob =
     (if message_id \<in> processed_messages self then (self, [], Continue)
      else process_unseen self message_id ob)"

text \<open>
  The loop over \<open>recent_messages\<close>; \<open>obs i\<close> is what the outside world does during pass \<open>i\<close>.
  An exception that leaves a pass ends the loop.
\<close>

fun process_candidates ::
  "'h handler \<Rightarrow> (nat \<Rightarrow> observation) \<Rightarrow> nat \<Rightarrow> string list \<Rightarrow> 'h handler \<times> event list \<times> flow" where
  "process_candidates self obs i [] = (self, [], Continue)"
| "process_candidates self obs i (message_id # rest) =
     (case process_candidate self message_id (obs i) of
        (self1, evs, Abort e) \<Rightarrow> (self1, evs, Abort e)
      | (self1, evs, Continue) \<Rightarrow>
          (case process_candidates self1 obs (Suc i) rest of
             (self2, evs', fl) \<Rightarrow> (self2, evs @ evs', fl)))"

section \<open>Processing a notification\<close>

text \<open>
  A notification with what the outside world does while it is processed: the clock read by
  the clean-up, the history id, what \<open>get_history\<close> gives through the retry wrapper (of each
  history item, the ids under \<open>messagesAdded\<close> when it has that key), what the unread query
  gives at its first and second call, and the observations of the passes by their number.
\<close>

record 'h notification =
  now :: real
  historyId :: 'h
  history :: "string list option list fetched"
  unread :: "nat \<Rightarrow> string list fetched"
  observe :: "nat \<Rightarrow> observation"

definition messages_added :: "string list option list \<Rightarrow> string list" where
  "messages_added history_changes =
     concat (map (\<lambda>item. case item of Some ids \<Rightarrow> ids | None \<Rightarrow> []) history_changes)"

text \<open>
  The unread query of the \<open>else\<close> branch sits inside the \<open>try\<close>, so an exception that leaves
  it is caught and the query is made once more by the \<open>except\<close> branch.
\<close>

definition fallback_in_try :: "'h notification \<Rightarrow> string list fetched" where
  "fallback_in_try n = (case unread n 0 of Raised e \<Rightarrow> unread n 1 | r \<Rightarrow> r)"

definition resolve :: "'h notification \<Rightarrow> string list fetched" where
  "resolve n =
     (case history n of
        Value history_changes \<Rightarrow>
          if history_changes \<noteq> [] then Value (messages_added history_changes)
          else fallback_in_try n
      | Unavailable \<Rightarrow> fallback_in_try n
      | Raised e \<Rightarrow> unread n 0)"

text \<open>How \<open>process_notification\<close> comes to its end; it returns \<open>None\<close> in every case.\<close>

datatype outcome = Completed | DuplicateHistory | NoMessages | Caught py_exception

definition process_notification ::
  "('h set \<Rightarrow> 'h list) \<Rightarrow> (string set \<Rightarrow> string list) \<Rightarrow> 'h handler \<Rightarrow> 'h notification
    \<Rightarrow> 'h handler \<times> event list \<times> outcome" where
  "process_notification list_h list_m self n =
     (let cleaned = cleanup_processed_messages list_h list_m (now n) self in
      if historyId n \<in> processed_history_ids cleaned then (cleaned, [], DuplicateHistory)
      else
        (let claimed = cleaned\<lparr>processed_history_ids :=
                                 insert (historyId n) (processed_history_ids cleaned)\<rparr> in
         case resolve n of
           Raised e \<Rightarrow> (claimed, [], Caught e)
         | Unavailable \<Rightarrow> (claimed, [], NoMessages)
         | Value recent_messages \<Rightarrow>
             (case process_candidates claimed (observe n) 0 recent_messages of
                (self1, evs, Abort e) \<Rightarrow> (self1, evs, Caught e)
              | (self1, evs, Continue) \<Rightarrow> (self1, evs, Completed))))"

text \<open>Notifications processed one after the other, each to its end.\<close>

fun process_notifications ::
  "('h set \<Rightarrow> 'h list) \<Rightarrow> (string set \<Rightarrow> string list) \<Rightarrow> 'h handler \<Rightarrow> 'h notification list
    \<Rightarrow> 'h handler \<times> event list" where
  "process_notifications list_h list_m self [] = (self, [])"
| "process_notifications list_h list_m self (n # ns) =
     (case process_notification list_h list_m self n of
        (self1, evs, how) \<Rightarrow>
          (case process_notifications list_h list_m self1 ns of
             (self2, evs') \<Rightarrow> (self2, evs @ evs')))"

text \<open>
  The Pub/Sub callback. Decoding either raises or gives the notification (a JSON object with
  \<open>emailAddress\<close> and \<open>historyId\<close>); \<open>timed_out\<close> says whether \<open>future.result(timeout=600)\<close>
  gave up waiting. \<open>process_notification\<close> lets no exception out, so the wait ends with
  \<open>ack\<close> unless it times out.
\<close>

datatype signal = Ack | Nack

definition callback ::
  "('h set \<Rightarrow> 'h list) \<Rightarrow> (string set \<Rightarrow> string list) \<Rightarrow> 'h handler
    \<Rightarrow> py_exception + 'h notification \<Rightarrow> bool \<Rightarrow> 'h handler \<times> event list \<times> signal" where
  "callback list_h list_m self decoded timed_out =
     (case decoded of
        Inl e \<Rightarrow> (self, [], Nack)
      | Inr notification_data \<Rightarrow>
          (case process_notification list_h list_m self notification_data of
             (self1, evs, how) \<Rightarrow> (self1, evs, if timed_out then Nack else Ack)))"

section \<open>Workers of the thread pool\<close>

text \<open>
  \<open>process_notification\<close> runs on the threads of a \<open>ThreadPoolExecutor\<close>, and the handler is
  shared between them. A worker is a call of \<open>process_notification\<close> under way, cut into
  steps at the places where it leaves a \<open>with ...lock\<close> block:
  \<^item> \<open>Start\<close>: the clean-up, the test and insertion of the history id (one block under
    \<open>processed_history_ids_lock\<close>) and the resolution of the candidates;
  \<^item> \<open>AtCheck\<close>: the test \<open>message_id in self.processed_messages\<close> of the next pass (one
    block under \<open>processed_messages_lock\<close>);
  \<^item> \<open>PastCheck\<close>: the rest of a pass whose message the test let through, from the
    timestamp fetch to the end of the agent's run.
  Coarser steps than the code's only leave out interleavings.
\<close>

datatype 'h worker =
    Start "'h notification"
  | AtCheck "'h notification" nat "string list"
  | PastCheck "'h notification" nat "string list"
  | Done

fun worker_step ::
  "('h set \<Rightarrow> 'h list) \<Rightarrow> (string set \<Rightarrow> string list) \<Rightarrow> 'h handler \<Rightarrow> 'h worker
    \<Rightarrow> 'h handler \<times> event list \<times> 'h worker" where
  "worker_step list_h list_m self (Start n) =
     (let cleaned = cleanup_processed_messages list_h list_m (now n) self in
      if historyId n \<in> processed_history_ids cleaned then (cleaned, [], Done)
      else
        (let claimed = cleaned\<lparr>processed_history_ids :=
                                 insert (historyId n) (processed_history_ids cleaned)\<rparr> in
         case resolve n of
           Value recent_messages \<Rightarrow> (claimed, [], AtCheck n 0 recent_messages)
         | _ \<Rightarrow> (claimed, [], Done)))"
| "worker_step list_h list_m self (AtCheck n i []) = (self, [], Done)"
| "worker_step list_h list_m self (AtCheck n i (message_id # rest)) =
     (if message_id \<in> processed_messages self then (self, [], AtCheck n (Suc i) rest)
      else (self, [], PastCheck n i (message_id # rest)))"
| "worker_step list_h list_m self (PastCheck n i []) = (self, [], Done)"
| "worker_step list_h list_m self (PastCheck n i (message_id # rest)) =
     (case process_unseen self message_id (observe n i) of
        (self1, evs, Continue) \<Rightarrow> (self1, evs, AtCheck n (Suc i) rest)
      | (self1, evs, Abort e) \<Rightarrow> (self1, evs, Done))"
| "worker_step list_h list_m self Done = (self, [], Done)"

text \<open>
  The pool: the shared handler, the effects so far and the workers. A schedule names, step
  by step, the worker that moves.
\<close>

record 'h pool =
  shared :: "'h handler"
  effects :: "event list"
  workers :: "'h worker list"

definition pool_step ::
  "('h set \<Rightarrow> 'h list) \<Rightarrow> (string set \<Rightarrow> string list) \<Rightarrow> 'h pool \<Rightarrow> nat \<Rightarrow> 'h pool" where
  "pool_step list_h list_m p w =
     (if w < length (workers p) then
        (case worker_step list_h list_m (shared p) (workers p ! w) of
           (self1, evs, w1) \<Rightarrow>
             \<lparr>shared = self1, effects = effects p @ evs, workers = (workers p)[w := w1]\<rparr>)
      else p)"

fun run_schedule ::
  "('h set \<Rightarrow> 'h list) \<Rightarrow> (string set \<Rightarrow> string list) \<Rightarrow> 'h pool \<Rightarrow> nat list \<Rightarrow> 'h pool" where
  "run_schedule list_h list_m p [] = p"
| "run_schedule list_h list_m p (w # ws) = run_schedule list_h list_m (pool_step list_h list_m p w) ws"

section \<open>Replies of this system\<close>

text \<open>
  A body carries a marker when, in lower case and trimmed, it contains an entry of
  \<open>system_patterns\<close> in lower case. \<open>reply_bodies\<close> lists the bodies of the replies among
  the effects of a run, and \<open>invocations\<close> the message ids of its calls of the agent.
\<close>

definition carries_marker :: "string \<Rightarrow> bool" where
  "carries_marker body =
     (\<exists>p \<in> set system_patterns. contains (strip (lower body)) (lower p))"

fun reply_bodies :: "event list \<Rightarrow> string list" where
  "reply_bodies [] = []"
| "reply_bodies (SendReply thread to_email subj body # evs) = body # reply_bodies evs"
| "reply_bodies (AgentInvoked message_id content sender # evs) = reply_bodies evs"

fun invocations :: "event list \<Rightarrow> string list" where
  "invocations [] = []"
| "invocations (SendReply thread to_email subj body # evs) = invocations evs"
| "invocations (AgentInvoked message_id content sender # evs) = message_id # invocations evs"

text \<open>
  The chunks of a stream with their numbers, counted from \<open>n + 1\<close>, and those of them that
  are every third chunk of the stream and longer than 50 characters.
\<close>

definition numbered :: "nat \<Rightarrow> string list \<Rightarrow> (nat \<times> string) list" where
  "numbered n us = zip [Suc n..<Suc n + length us] us"

definition forwarded :: "nat \<Rightarrow> string list \<Rightarrow> (nat \<times> string) list" where
  "forwarded n us = filter (\<lambda>(k, u). k mod 3 = 0 \<and> 50 < length u) (numbered n us)"

section \<open>Sample inputs\<close>

text \<open>
  A handler that started at time 1000 and has seen nothing yet, and what the outside world
  does for a message of the owner to himself with subject \<open>CLAUDE\<close> and body
  \<open>do the thing\<close>, received at time 2000: every fetch and every send succeeds, and the agent
  answers \<open>done\<close> without streaming anything.
\<close>

definition fresh_handler :: "string handler" where
  "fresh_handler =
     \<lparr>processed_messages = {}, processed_history_ids = {}, last_cleanup_time = 1000,
      server_start_time = 1000, sent_message_ids = {}\<rparr>"

definition good_observation :: observation where
  "good_observation =
     \<lparr>message_timestamp = Value 2000,
      header_sender = Value ''jonathanmingli@gmail.com'',
      header_recipient = Value ''jonathanmingli@gmail.com'',
      header_subject = Value ''CLAUDE'',
      message_content = Value ''do the thing'',
      sender_email = Value ''jonathanmingli@gmail.com'',
      subject = Value ''CLAUDE'',
      thread_id = Value ''thread-1'',
      ack_reply = Value ''reply-1'',
      agent = \<lparr>chunks = [], ending = Inr ''done''\<rparr>,
      progress_reply = (\<lambda>k. Unavailable),
      final_reply = Value ''reply-2'',
      error_reply = Unavailable\<rparr>"

text \<open>
  A stream of six chunks: the third is 51 characters long, the sixth 50, the others are short.
\<close>

definition sample_chunks :: "string list" where
  "sample_chunks =
     [''Reading the request'', ''Looking at the files'', replicate 51 (CHR ''x''),
      ''Editing'', ''Running the tests'', replicate 50 (CHR ''y'')]"

text \<open>
  Two notifications with different history ids, received at time 1500, whose history lookup
  yields the same new message \<open>m1\<close>, the sample message; and a notification for which the
  history lookup and the unread query both end with \<open>None\<close>.
\<close>

definition first_notification :: "string notification" where
  "first_notification =
     \<lparr>now = 1500, historyId = ''h1'', history = Value [Some [''m1'']],
      unread = (\<lambda>call. Unavailable), observe = (\<lambda>i. good_observation)\<rparr>"

definition second_notification :: "string notification" where
  "second_notification =
     \<lparr>now = 1500, historyId = ''h2'', history = Value [Some [''m1'']],
      unread = (\<lambda>call. Unavailable), observe = (\<lambda>i. good_observation)\<rparr>"

definition unavailable_notification :: "string notification" where
  "unavailable_notification =
     \<lparr>now = 1500, historyId = ''h3'', history = Unavailable,
      unread = (\<lambda>call. Unavailable), observe = (\<lambda>i. good_observation)\<rparr>"

definition two_workers :: "string pool" where
  "two_workers =
     \<lparr>shared = fresh_handler, effects = [],
      workers = [Start first_notification, Start second_notification]\<rparr>"

section \<open>Facts about the retry wrapper\<close>

lemma retry_from_all_transient:
  "attempt + remaining = max_retries \<Longrightarrow>
   (\<And>k. k < max_retries \<Longrightarrow> \<exists>e. operation k = Raises e \<and> transient (exn_class e)) \<Longrightarrow>
   retry_from operation max_retries delay attempt remaining =
     \<lparr>result = Unavailable, calls = remaining,
      sleeps = map (\<lambda>a. delay * 2 ^ a) [attempt..<max_retries - 1]\<rparr>"
proof (induction remaining arbitrary: attempt)
  case 0
  then show ?case by simp
next
  case (Suc remaining)
  from Suc.prems(1) have lt: "attempt < max_retries" by simp
  with Suc.prems(2) obtain e where e: "operation attempt = Raises e" "transient (exn_class e)"
    by blast
  show ?case
  proof (cases "attempt = max_retries - 1")
    case True
    with Suc.prems(1) have "remaining = 0" by simp
    with e True show ?thesis by simp
  next
    case False
    with lt have lt': "attempt < max_retries - 1" by simp
    from Suc.prems(1) have "Suc attempt + remaining = max_retries" by simp
    from Suc.IH [OF this Suc.prems(2)]
    have "retry_from operation max_retries delay (Suc attempt) remaining =
            \<lparr>result = Unavailable, calls = remaining,
             sleeps = map (\<lambda>a. delay * 2 ^ a) [Suc attempt..<max_retries - 1]\<rparr>"
      by simp
    with e False lt' show ?thesis by (simp add: upt_conv_Cons)
  qed
qed

lemma retry_from_fatal:
  "attempt + remaining = max_retries \<Longrightarrow> attempt \<le> k \<Longrightarrow> k < max_retries \<Longrightarrow>
   (\<And>j. j < k \<Longrightarrow> \<exists>e. operation j = Raises e \<and> transient (exn_class e)) \<Longrightarrow>
   operation k = Raises e \<Longrightarrow> \<not> transient (exn_class e) \<Longrightarrow>
   retry_from operation max_retries delay attempt remaining =
     \<lparr>result = Raised e, calls = Suc k - attempt,
      sleeps = map (\<lambda>a. delay * 2 ^ a) [attempt..<k]\<rparr>"
proof (induction remaining arbitrary: attempt)
  case 0
  then show ?case by simp
next
  case (Suc remaining)
  show ?case
  proof (cases "attempt = k")
    case True
    with Suc.prems show ?thesis by simp
  next
    case False
    with Suc.prems have lt: "attempt < k" by simp
    with Suc.prems(4) obtain e' where e': "operation attempt = Raises e'" "transient (exn_class e')"
      by blast
    from lt Suc.prems have ne: "attempt \<noteq> max_retries - 1" by simp
    from lt have le: "Suc attempt \<le> k" by simp
    from Suc.prems(1) have "Suc attempt + remaining = max_retries" by simp
    from Suc.IH [OF this le Suc.prems(3) Suc.prems(4) Suc.prems(5) Suc.prems(6)]
    have "retry_from operation max_retries delay (Suc attempt) remaining =
            \<lparr>result = Raised e, calls = Suc k - Suc attempt,
             sleeps = map (\<lambda>a. delay * 2 ^ a) [Suc attempt..<k]\<rparr>"
      by simp
    with e' ne lt show ?thesis by (simp add: upt_conv_Cons Suc_diff_le)
  qed
qed

text \<open>
  C6. An operation that raises a transient-class error on every invocation is invoked exactly
  \<open>max_retries\<close> times, with a sleep of \<open>delay * 2 ^ attempt\<close> after each failed attempt but
  the last, and the wrapper then returns \<open>None\<close> (\<open>Unavailable\<close>) and lets nothing through;
  with the defaults that is three invocations and sleeps of 2 and 4 seconds. An exception
  of any other class is let through by the attempt that meets it: no sleep follows and the
  operation is not invoked again.
\<close>

theorem retry_exhaustion_returns_unavailable:
  "((\<forall>k < max_retries. \<exists>e. operation k = Raises e \<and> transient (exn_class e)) \<longrightarrow>
      retry_gmail_operation operation max_retries delay =
        \<lparr>result = Unavailable, calls = max_retries,
         sleeps = map (\<lambda>a. delay * 2 ^ a) [0..<max_retries - 1]\<rparr>)
   \<and> ((\<forall>k < 3. \<exists>e. operation k = Raises e \<and> transient (exn_class e)) \<longrightarrow>
      retry_gmail_operation_default operation =
        \<lparr>result = Unavailable, calls = 3, sleeps = [2, 4]\<rparr>)
   \<and> (k < max_retries \<and> (\<forall>j < k. \<exists>e'. operation j = Raises e' \<and> transient (exn_class e'))
        \<and> operation k = Raises e \<and> \<not> transient (exn_class e) \<longrightarrow>
      retry_gmail_operation operation max_retries delay =
        \<lparr>result = Raised e, calls = Suc k, sleeps = map (\<lambda>a. delay * 2 ^ a) [0..<k]\<rparr>)"
proof (intro conjI impI)
  assume "\<forall>k < max_retries. \<exists>e. operation k = Raises e \<and> transient (exn_class e)"
  then show "retry_gmail_operation operation max_retries delay =
        \<lparr>result = Unavailable, calls = max_retries,
         sleeps = map (\<lambda>a. delay * 2 ^ a) [0..<max_retries - 1]\<rparr>"
    unfolding retry_gmail_operation_def
    by (intro retry_from_all_transient) auto
next
  assume "\<forall>k < 3. \<exists>e. operation k = Raises e \<and> transient (exn_class e)"
  then have "retry_from operation 3 2 0 3 =
        \<lparr>result = Unavailable, calls = 3, sleeps = map (\<lambda>a. 2 * 2 ^ a) [0..<3 - 1]\<rparr>"
    by (intro retry_from_all_transient) auto
  moreover have "[0..<3 - 1] = [0, Suc 0]"
    by (simp add: upt_conv_Cons)
  ultimately show "retry_gmail_operation_default operation =
        \<lparr>result = Unavailable, calls = 3, sleeps = [2, 4]\<rparr>"
    by (simp add: retry_gmail_operation_default_def retry_gmail_operation_def)
next
  assume a: "k < max_retries \<and> (\<forall>j < k. \<exists>e'. operation j = Raises e' \<and> transient (exn_class e'))
        \<and> operation k = Raises e \<and> \<not> transient (exn_class e)"
  then have "retry_from operation max_retries delay 0 max_retries =
        \<lparr>result = Raised e, calls = Suc k - 0, sleeps = map (\<lambda>a. delay * 2 ^ a) [0..<k]\<rparr>"
    by (intro retry_from_fatal) auto
  then show "retry_gmail_operation operation max_retries delay =
        \<lparr>result = Raised e, calls = Suc k, sleeps = map (\<lambda>a. delay * 2 ^ a) [0..<k]\<rparr>"
    by (simp add: retry_gmail_operation_def)
qed

text \<open>
  The theorem at concrete runs: an operation that always raises \<open>ConnectionError\<close>, under
  the defaults, and one whose first invocation raises a \<open>KeyError\<close>-like exception.
\<close>

theorem retry_exhaustion_returns_unavailable_witness:
  "retry_gmail_operation (\<lambda>_. Raises (Exception ConnectionError ''reset'') :: string attempt) 3 2 =
     \<lparr>result = Unavailable, calls = 3, sleeps = [2, 4]\<rparr>
   \<and> retry_gmail_operation_default (\<lambda>_. Raises (Exception ConnectionError ''reset'') :: string attempt) =
     \<lparr>result = Unavailable, calls = 3, sleeps = [2, 4]\<rparr>
   \<and> retry_gmail_operation (\<lambda>_. Raises (Exception OtherError ''payload'') :: string attempt) 3 2 =
     \<lparr>result = Raised (Exception OtherError ''payload''), calls = 1, sleeps = []\<rparr>"
proof -
  have up: "[0..<2] = [0, Suc 0]"
    by code_simp
  show ?thesis
    using retry_exhaustion_returns_unavailable
      [of 3 "\<lambda>_. Raises (Exception ConnectionError ''reset'') :: string attempt" 2 0
          "Exception ConnectionError ''reset''"]
      retry_exhaustion_returns_unavailable
      [of 3 "\<lambda>_. Raises (Exception OtherError ''payload'') :: string attempt" 2 0
          "Exception OtherError ''payload''"]
    by (simp add: up)
qed

section \<open>Facts about the clean-up\<close>

lemma enumerates_card: "enumerates to_list S \<Longrightarrow> card S = length (to_list S)"
  using distinct_card [of "to_list S"] by (simp add: enumerates_def)

lemma card_last_n: "distinct xs \<Longrightarrow> card (set (last_n k xs)) = min k (length xs)"
proof -
  assume "distinct xs"
  then have "distinct (last_n k xs)"
    by (simp add: last_n_def)
  then have "card (set (last_n k xs)) = length (last_n k xs)"
    by (rule distinct_card)
  then show ?thesis
    by (simp add: last_n_def)
qed

lemma card_trim:
  assumes "enumerates to_list S"
  shows "card (trim to_list limit keep S) = (if card S > limit then min keep (card S) else card S)"
proof (cases "card S > limit")
  case True
  from assms have "distinct (to_list S)"
    by (simp add: enumerates_def)
  then have "card (set (last_n keep (to_list S))) = min keep (length (to_list S))"
    by (rule card_last_n)
  with True assms show ?thesis
    by (simp add: trim_def enumerates_card)
next
  case False
  then show ?thesis by (simp add: trim_def)
qed

lemma trim_subset: "enumerates to_list S \<Longrightarrow> trim to_list limit keep S \<subseteq> S"
proof -
  assume e: "enumerates to_list S"
  have "set (last_n keep (to_list S)) \<subseteq> set (to_list S)"
    unfolding last_n_def by (rule set_drop_subset)
  with e show ?thesis
    by (simp add: trim_def enumerates_def)
qed

lemma sample_ids_distinct: "distinct (sample_ids n)"
proof -
  have "inj_on (\<lambda>k. replicate k (CHR ''m'')) (set [1..<Suc n])"
  proof (rule inj_onI)
    fix i j :: nat
    assume "replicate i (CHR ''m'') = replicate j (CHR ''m'')"
    then have "length (replicate i (CHR ''m'')) = length (replicate j (CHR ''m''))"
      by simp
    then show "i = j" by simp
  qed
  then show ?thesis
    by (simp add: sample_ids_def distinct_map)
qed

lemma sample_ids_length: "length (sample_ids n) = n"
  by (simp add: sample_ids_def)

lemma sample_ids_card: "card (set (sample_ids n)) = n"
  using distinct_card [OF sample_ids_distinct, of n] by (simp add: sample_ids_length)

lemma sample_order_all: "sample_order n (set (sample_ids n)) = sample_ids n"
  by (simp add: sample_order_def)

lemma sample_order_enumerates: "enumerates (sample_order n) (set (sample_ids n))"
  by (simp add: enumerates_def sample_order_all sample_ids_distinct)

lemma sample_ids_mono: "m \<le> n \<Longrightarrow> set (sample_ids m) \<subseteq> set (sample_ids n)"
  by (auto simp: sample_ids_def)

lemma sample_order_enumerates_subset:
  "S \<subseteq> set (sample_ids n) \<Longrightarrow> enumerates (sample_order n) S"
  by (auto simp: enumerates_def sample_order_def sample_ids_distinct)

text \<open>
  C4, as the code has it. Once more than 3600 seconds have passed since the last clean-up,
  \<open>processed_messages\<close> and \<open>processed_history_ids\<close> are cut to 50 entries when they
  hold more than 100, and \<open>sent_message_ids\<close> is cut to 25 entries when it holds more than
  50 (its limit is 50, not 100); a set within its limit is left as it is. After the clean-up
  the three sets hold at most 100, 100 and 50 entries, and they only ever lose entries.
  Up to 3600 seconds after the last clean-up nothing changes.
\<close>

theorem cleanup_bounds_ledger:
  assumes "enumerates list_m (processed_messages self)"
    and "enumerates list_h (processed_history_ids self)"
    and "enumerates list_m (sent_message_ids self)"
  shows "(current_time - last_cleanup_time self > 3600 \<longrightarrow>
           card (processed_messages (cleanup_processed_messages list_h list_m current_time self)) =
             (if card (processed_messages self) > 100 then 50 else card (processed_messages self))
         \<and> card (processed_history_ids (cleanup_processed_messages list_h list_m current_time self)) =
             (if card (processed_history_ids self) > 100 then 50
              else card (processed_history_ids self))
         \<and> card (sent_message_ids (cleanup_processed_messages list_h list_m current_time self)) =
             (if card (sent_message_ids self) > 50 then 25 else card (sent_message_ids self))
         \<and> card (processed_messages (cleanup_processed_messages list_h list_m current_time self)) \<le> 100
         \<and> card (processed_history_ids (cleanup_processed_messages list_h list_m current_time self)) \<le> 100
         \<and> card (sent_message_ids (cleanup_processed_messages list_h list_m current_time self)) \<le> 50
         \<and> last_cleanup_time (cleanup_processed_messages list_h list_m current_time self) = current_time)
       \<and> (current_time - last_cleanup_time self \<le> 3600 \<longrightarrow>
           cleanup_processed_messages list_h list_m current_time self = self)
       \<and> processed_messages (cleanup_processed_messages list_h list_m current_time self)
             \<subseteq> processed_messages self
       \<and> processed_history_ids (cleanup_processed_messages list_h list_m current_time self)
             \<subseteq> processed_history_ids self
       \<and> sent_message_ids (cleanup_processed_messages list_h list_m current_time self)
             \<subseteq> sent_message_ids self"
proof -
  have pm: "card (trim list_m 100 50 (processed_messages self)) =
      (if card (processed_messages self) > 100 then 50 else card (processed_messages self))"
    using card_trim [OF assms(1), of 100 50] by simp
  have ph: "card (trim list_h 100 50 (processed_history_ids self)) =
      (if card (processed_history_ids self) > 100 then 50 else card (processed_history_ids self))"
    using card_trim [OF assms(2), of 100 50] by simp
  have sm: "card (trim list_m 50 25 (sent_message_ids self)) =
      (if card (sent_message_ids self) > 50 then 25 else card (sent_message_ids self))"
    using card_trim [OF assms(3), of 50 25] by simp
  have sub: "trim list_m 100 50 (processed_messages self) \<subseteq> processed_messages self"
      "trim list_h 100 50 (processed_history_ids self) \<subseteq> processed_history_ids self"
      "trim list_m 50 25 (sent_message_ids self) \<subseteq> sent_message_ids self"
    using assms by (simp_all add: trim_subset)
  show ?thesis
    using pm ph sm sub by (simp add: cleanup_processed_messages_def)
qed

text \<open>
  The theorem at a handler that tracks 101 messages, 40 history ids and 60 replies: cleaned
  up 4000 seconds after the last clean-up, 50, 40 and 25 entries are left; cleaned up 3000
  seconds after it, nothing changes.
\<close>

theorem cleanup_bounds_ledger_witness:
  "card (processed_messages (cleanup_processed_messages (sample_order 40) (sample_order 101) 4000
      (sample_handler 101 40 60))) = 50
   \<and> card (processed_history_ids (cleanup_processed_messages (sample_order 40) (sample_order 101) 4000
      (sample_handler 101 40 60))) = 40
   \<and> card (sent_message_ids (cleanup_processed_messages (sample_order 40) (sample_order 101) 4000
      (sample_handler 101 40 60))) = 25
   \<and> cleanup_processed_messages (sample_order 40) (sample_order 101) 3000
      (sample_handler 101 40 60) = sample_handler 101 40 60"
proof -
  have "set (sample_ids 60) \<subseteq> set (sample_ids 101)"
    by (rule sample_ids_mono) simp
  then have e: "enumerates (sample_order 101) (set (sample_ids 60))"
    by (rule sample_order_enumerates_subset)
  have due: "4000 - last_cleanup_time (sample_handler 101 40 60) > 3600"
    and not_due: "3000 - last_cleanup_time (sample_handler 101 40 60) \<le> 3600"
    by (simp_all add: sample_handler_def)
  from e cleanup_bounds_ledger [of "sample_order 101" "sample_handler 101 40 60"
        "sample_order 40" 3000] not_due
  have same: "cleanup_processed_messages (sample_order 40) (sample_order 101) 3000
      (sample_handler 101 40 60) = sample_handler 101 40 60"
    by (simp add: sample_handler_def sample_order_enumerates)
  from e show ?thesis
    using cleanup_bounds_ledger [of "sample_order 101" "sample_handler 101 40 60"
        "sample_order 40" 4000] same
    by (simp add: sample_handler_def sample_order_enumerates sample_ids_card)
qed

text \<open>
  C4 as stated fails on \<open>sent_message_ids\<close>: with 60 tracked replies, which is within the
  stated limit of 100, the stated compaction keeps all 60, and the clean-up keeps 25.
\<close>

theorem cleanup_sent_limit_counterexample:
  "card (sent_message_ids (sample_handler 0 0 60)) = 60
   \<and> card (spec_compact_sent (sample_order 60) (sent_message_ids (sample_handler 0 0 60))) = 60
   \<and> card (sent_message_ids
        (cleanup_processed_messages (sample_order 0) (sample_order 60) 4000 (sample_handler 0 0 60))) = 25"
proof -
  have e: "enumerates (sample_order 60) (set (sample_ids 60))"
    by (rule sample_order_enumerates)
  have "card (trim (sample_order 60) 50 25 (set (sample_ids 60))) = 25"
    using card_trim [OF e, of 50 25] by (simp add: sample_ids_card)
  moreover have "card (trim (sample_order 60) 100 25 (set (sample_ids 60))) = 60"
    using card_trim [OF e, of 100 25] by (simp add: sample_ids_card)
  ultimately show ?thesis
    by (simp add: sample_handler_def cleanup_processed_messages_def spec_compact_sent_def
        sample_ids_card)
qed

section \<open>Facts about strings\<close>

lemmas case_tables = upper_char_def lower_char_def ascii_uppercase_def ascii_lowercase_def

lemmas strip_defs = strip_def lstrip_def rstrip_def isspace_def whitespace_def

lemma upper_char_other: "c \<notin> set ascii_lowercase \<Longrightarrow> upper_char c = c"
proof -
  assume "c \<notin> set ascii_lowercase"
  moreover have "length ascii_lowercase = length ascii_uppercase"
    by (simp add: ascii_uppercase_def ascii_lowercase_def)
  ultimately have "map_of (zip ascii_lowercase ascii_uppercase) c = None"
    by (simp add: map_of_zip_is_None)
  then show ?thesis by (simp add: upper_char_def)
qed

lemma lower_char_other: "c \<notin> set ascii_uppercase \<Longrightarrow> lower_char c = c"
proof -
  assume "c \<notin> set ascii_uppercase"
  moreover have "length ascii_uppercase = length ascii_lowercase"
    by (simp add: ascii_uppercase_def ascii_lowercase_def)
  ultimately have "map_of (zip ascii_uppercase ascii_lowercase) c = None"
    by (simp add: map_of_zip_is_None)
  then show ?thesis by (simp add: lower_char_def)
qed

lemma lower_upper_letters: "\<forall>c \<in> set ascii_lowercase. lower_char (upper_char c) = lower_char c"
  by (simp add: case_tables)

lemma lower_upper_char: "lower_char (upper_char c) = lower_char c"
proof (cases "c \<in> set ascii_lowercase")
  case True
  with lower_upper_letters show ?thesis by blast
next
  case False
  then show ?thesis by (simp add: upper_char_other)
qed

lemma upper_lower_letters: "\<forall>c \<in> set ascii_uppercase. upper_char (lower_char c) = upper_char c"
  by (simp add: case_tables)

lemma upper_lower_char: "upper_char (lower_char c) = upper_char c"
proof (cases "c \<in> set ascii_uppercase")
  case True
  with upper_lower_letters show ?thesis by blast
next
  case False
  then show ?thesis by (simp add: lower_char_other)
qed

text \<open>Equality after upper-casing and equality after lower-casing are the same relation.\<close>

lemma upper_eq_iff_lower_eq: "upper a = upper b \<longleftrightarrow> lower a = lower b"
proof
  assume "upper a = upper b"
  then have "lower (upper a) = lower (upper b)" by simp
  then show "lower a = lower b"
    by (simp add: lower_def upper_def lower_upper_char comp_def)
next
  assume "lower a = lower b"
  then have "upper (lower a) = upper (lower b)" by simp
  then show "upper a = upper b"
    by (simp add: lower_def upper_def upper_lower_char comp_def)
qed

lemma lower_target: "lower target_email = target_email"
  by (simp add: target_email_def lower_def case_tables)

lemma upper_required: "upper s = required_subject \<longleftrightarrow> lower s = lower required_subject"
proof -
  have "upper required_subject = required_subject"
    by (simp add: required_subject_def upper_def case_tables)
  then have "upper s = required_subject \<longleftrightarrow> upper s = upper required_subject"
    by simp
  then show ?thesis by (simp only: upper_eq_iff_lower_eq)
qed

section \<open>Facts about the eligibility filter\<close>

text \<open>
  C5, as the code has it. With the three headers fetched, \<open>is_valid_claude_email\<close> accepts
  exactly when sender and recipient equal the target address and the subject equals the
  required subject, each without regard to case; the subject is compared as it is, not
  trimmed. The subject \<open>claude\<close> in lower case is accepted.
\<close>

theorem is_valid_claude_email_iff:
  "(fst (is_valid_claude_email (Value sender) (Value recipient) (Value subj)) \<longleftrightarrow>
      lower sender = lower target_email \<and> lower recipient = lower target_email
      \<and> lower subj = lower required_subject)
   \<and> fst (is_valid_claude_email (Value target_email) (Value target_email) (Value ''claude''))"
proof
  show "fst (is_valid_claude_email (Value sender) (Value recipient) (Value subj)) \<longleftrightarrow>
      lower sender = lower target_email \<and> lower recipient = lower target_email
      \<and> lower subj = lower required_subject"
    by (simp add: is_valid_claude_email_def lower_target upper_required)
  show "fst (is_valid_claude_email (Value target_email) (Value target_email) (Value ''claude''))"
    by (simp add: is_valid_claude_email_def lower_target required_subject_def upper_def case_tables)
qed

text \<open>The theorem at a message in mixed case, which is accepted, and at a foreign sender.\<close>

theorem is_valid_claude_email_iff_witness:
  "fst (is_valid_claude_email (Value ''JonathanMingLi@Gmail.com'')
          (Value ''jonathanmingli@gmail.com'') (Value ''Claude''))
   \<and> \<not> fst (is_valid_claude_email (Value ''a@x.com'')
          (Value ''jonathanmingli@gmail.com'') (Value ''CLAUDE''))"
  using is_valid_claude_email_iff
      [of "''JonathanMingLi@Gmail.com''" "''jonathanmingli@gmail.com''" "''Claude''"]
    is_valid_claude_email_iff [of "''a@x.com''" "''jonathanmingli@gmail.com''" "''CLAUDE''"]
  by (simp add: target_email_def required_subject_def lower_def lower_char_def
      ascii_uppercase_def ascii_lowercase_def)

text \<open>
  C5 as stated fails on a subject with a trailing space: after trimming it is the required
  subject, so the stated criterion accepts it, and \<open>is_valid_claude_email\<close> refuses it.
\<close>

theorem is_valid_claude_email_trim_counterexample:
  "spec_isEligible target_email target_email ''CLAUDE ''
   \<and> \<not> fst (is_valid_claude_email (Value target_email) (Value target_email) (Value ''CLAUDE ''))"
proof
  show "spec_isEligible target_email target_email ''CLAUDE ''"
    by (simp add: spec_isEligible_def required_subject_def strip_defs)
  show "\<not> fst (is_valid_claude_email (Value target_email) (Value target_email) (Value ''CLAUDE ''))"
    by (simp add: is_valid_claude_email_def lower_target required_subject_def upper_def case_tables)
qed

lemma first_pattern_Some:
  "(\<exists>p. first_pattern content_lower ps = Some p) \<longleftrightarrow>
   (\<exists>p \<in> set ps. contains content_lower (lower p))"
  by (induction ps) auto

lemma first_pattern_None:
  "first_pattern content_lower ps = None \<longleftrightarrow>
   \<not> (\<exists>p \<in> set ps. contains content_lower (lower p))"
  by (induction ps) auto

lemma is_system_generated_email_iff:
  "fst (is_system_generated_email self content sender message_id) \<longleftrightarrow>
     message_id \<in> sent_message_ids self
     \<or> (\<exists>p \<in> set system_patterns. contains (strip (lower content)) (lower p))
     \<or> length (strip (lower content)) < 10"
proof (cases "first_pattern (strip (lower content)) system_patterns")
  case None
  then have "\<not> (\<exists>p \<in> set system_patterns. contains (strip (lower content)) (lower p))"
    using first_pattern_None [of "strip (lower content)" system_patterns] by blast
  with None show ?thesis
    by (simp add: is_system_generated_email_def)
next
  case (Some p)
  then have "\<exists>p \<in> set system_patterns. contains (strip (lower content)) (lower p)"
    using first_pattern_Some [of "strip (lower content)" system_patterns] by simp
  with Some show ?thesis
    by (simp add: is_system_generated_email_def)
qed

lemma is_system_generated_email_ack:
  "message_id \<notin> sent_message_ids self \<Longrightarrow>
   is_system_generated_email self ''ack'' sender message_id =
     (True, ''Email contains system pattern: '' @ [CHR 0x27] @ ''ack'' @ [CHR 0x27])"
  by (simp add: is_system_generated_email_def system_patterns_def lower_def lower_char_def
      ascii_uppercase_def ascii_lowercase_def strip_defs)

section \<open>Facts about the gates\<close>

lemma eligibility_gates_Passed:
  "eligibility_gates self message_id ob = Passed content sender subj \<Longrightarrow>
     fst (is_valid_claude_email (header_sender ob) (header_recipient ob) (header_subject ob))
     \<and> message_content ob = Value content \<and> sender_email ob = Value sender
     \<and> subject ob = Value subj
     \<and> \<not> fst (is_system_generated_email self content sender message_id)
     \<and> strip content \<noteq> []"
  unfolding eligibility_gates_def
  by (auto split: prod.splits bool.splits fetched.splits if_splits)

lemma gates_Passed:
  "gates self message_id ob = Passed content sender subj \<Longrightarrow>
     \<not> stale (server_start_time self) (message_timestamp ob)
     \<and> eligibility_gates self message_id ob = Passed content sender subj"
  unfolding gates_def
  by (auto split: fetched.splits if_splits)

lemma process_unseen_not_Passed:
  "(\<And>content sender subj. gates self message_id ob \<noteq> Passed content sender subj) \<Longrightarrow>
   fst (process_unseen self message_id ob) = self
   \<and> fst (snd (process_unseen self message_id ob)) = []"
  unfolding process_unseen_def
  by (cases "gates self message_id ob") auto

lemma system_generated_is_skipped:
  assumes "\<And>content sender. message_content ob = Value content \<Longrightarrow>
             fst (is_system_generated_email self content sender message_id)"
  shows "fst (process_candidate self message_id ob) = self
         \<and> fst (snd (process_candidate self message_id ob)) = []"
proof (cases "message_id \<in> processed_messages self")
  case True
  then show ?thesis by (simp add: process_candidate_def)
next
  case False
  have "gates self message_id ob \<noteq> Passed c s j" for c s j
  proof
    assume "gates self message_id ob = Passed c s j"
    then have "eligibility_gates self message_id ob = Passed c s j"
      by (simp add: gates_Passed)
    then have "message_content ob = Value c"
        and "\<not> fst (is_system_generated_email self c s message_id)"
      by (simp_all add: eligibility_gates_Passed)
    with assms show False by simp
  qed
  then have "fst (process_unseen self message_id ob) = self
      \<and> fst (snd (process_unseen self message_id ob)) = []"
    by (rule process_unseen_not_Passed)
  with False show ?thesis by (simp add: process_candidate_def)
qed

text \<open>
  C7. \<open>is_system_generated_email\<close> answers true exactly when the message id is in
  \<open>sent_message_ids\<close>, or the body, in lower case and trimmed, contains one of the entries of
  \<open>system_patterns\<close> in lower case, or that body is shorter than 10 characters. The body
  \<open>ack\<close> gives true; for a message id that is not in \<open>sent_message_ids\<close> the reason is
  \<open>Email contains system pattern: 'ack'\<close>, which contains \<open>ack\<close>. A candidate whose body is
  \<open>ack\<close> leaves the handler as it was and causes no send and no call of the agent.
\<close>

theorem is_system_generated_email_markers:
  "(fst (is_system_generated_email self content sender message_id) \<longleftrightarrow>
      message_id \<in> sent_message_ids self
      \<or> (\<exists>p \<in> set system_patterns. contains (strip (lower content)) (lower p))
      \<or> length (strip (lower content)) < 10)
   \<and> fst (is_system_generated_email self ''ack'' sender message_id)
   \<and> (message_id \<notin> sent_message_ids self \<longrightarrow>
        snd (is_system_generated_email self ''ack'' sender message_id) =
          ''Email contains system pattern: '' @ [CHR 0x27] @ ''ack'' @ [CHR 0x27]
        \<and> contains (snd (is_system_generated_email self ''ack'' sender message_id)) ''ack'')
   \<and> (message_content ob = Value ''ack'' \<longrightarrow>
        fst (process_candidate self message_id ob) = self
        \<and> fst (snd (process_candidate self message_id ob)) = [])"
proof (intro conjI impI)
  show "fst (is_system_generated_email self content sender message_id) \<longleftrightarrow>
      message_id \<in> sent_message_ids self
      \<or> (\<exists>p \<in> set system_patterns. contains (strip (lower content)) (lower p))
      \<or> length (strip (lower content)) < 10"
    by (rule is_system_generated_email_iff)
  have short: "length (strip (lower ''ack'')) < 10"
    by (simp add: lower_def lower_char_def ascii_uppercase_def ascii_lowercase_def strip_defs)
  then show ack: "fst (is_system_generated_email self ''ack'' s message_id)" for s
    by (simp add: is_system_generated_email_iff)
  {
    assume "message_id \<notin> sent_message_ids self"
    then have r: "is_system_generated_email self ''ack'' sender message_id =
        (True, ''Email contains system pattern: '' @ [CHR 0x27] @ ''ack'' @ [CHR 0x27])"
      by (rule is_system_generated_email_ack)
    then show "snd (is_system_generated_email self ''ack'' sender message_id) =
        ''Email contains system pattern: '' @ [CHR 0x27] @ ''ack'' @ [CHR 0x27]"
      by simp
    from r show "contains (snd (is_system_generated_email self ''ack'' sender message_id)) ''ack''"
      by simp
  }
  {
    assume c: "message_content ob = Value ''ack''"
    have "fst (is_system_generated_email self c' s message_id)"
      if "message_content ob = Value c'" for c' s
      using that c ack by simp
    from system_generated_is_skipped [OF this]
    show "fst (process_candidate self message_id ob) = self"
      and "fst (snd (process_candidate self message_id ob)) = []"
      by simp_all
  }
qed

text \<open>
  The theorem at the fresh handler: the body \<open>ack\<close> is classified as system-generated with
  the reason that names the pattern and is skipped; the body \<open>do the thing\<close> is not.
\<close>

theorem is_system_generated_email_markers_witness:
  "fst (is_system_generated_email fresh_handler ''ack'' ''jonathanmingli@gmail.com'' ''m1'')
   \<and> snd (is_system_generated_email fresh_handler ''ack'' ''jonathanmingli@gmail.com'' ''m1'') =
       ''Email contains system pattern: '' @ [CHR 0x27] @ ''ack'' @ [CHR 0x27]
   \<and> fst (snd (process_candidate fresh_handler ''m1''
        (good_observation\<lparr>message_content := Value ''ack''\<rparr>))) = []
   \<and> \<not> fst (is_system_generated_email fresh_handler ''do the thing''
        ''jonathanmingli@gmail.com'' ''m1'')"
proof -
  have no_marker: "\<not> (\<exists>p \<in> set system_patterns.
      contains (strip (lower ''do the thing'')) (lower p))"
    by code_simp
  have long: "\<not> length (strip (lower ''do the thing'')) < 10"
    by code_simp
  have unsent: "''m1'' \<notin> sent_message_ids fresh_handler"
    by (simp add: fresh_handler_def)
  have body: "message_content (good_observation\<lparr>message_content := Value ''ack''\<rparr>) = Value ''ack''"
    by simp
  show ?thesis
    using is_system_generated_email_markers
      [of fresh_handler "''do the thing''" "''jonathanmingli@gmail.com''" "''m1''"
          "good_observation\<lparr>message_content := Value ''ack''\<rparr>"]
      no_marker long unsent body
    by simp
qed

section \<open>The staleness test\<close>

lemma eligibility_gates_not_old: "eligibility_gates self message_id ob \<noteq> Rejected OldMessage"
  unfolding eligibility_gates_def
  by (auto split: prod.splits bool.splits fetched.splits if_splits)

lemma gates_old_iff:
  "gates self message_id ob = Rejected OldMessage \<longleftrightarrow>
     (\<exists>t. message_timestamp ob = Value t \<and> t \<noteq> 0 \<and> t < server_start_time self)"
  using eligibility_gates_not_old [of self message_id ob]
  by (auto simp: gates_def stale_def split: fetched.splits)

text \<open>
  C3, as the code has it. A candidate whose timestamp fetch gives a value other than 0 that
  lies strictly before \<open>server_start_time\<close> is always skipped: the pass changes nothing and
  causes no effect, whatever else is true of the message. A candidate is skipped as old in
  no other case: not when its timestamp is at or after \<open>server_start_time\<close>, and not when the
  fetch gives 0 or \<open>None\<close>, in which cases the remaining checks alone decide.
\<close>

theorem staleness_boundary:
  "(message_timestamp ob = Value t \<and> t \<noteq> 0 \<and> t < server_start_time self \<longrightarrow>
      process_candidate self message_id ob = (self, [], Continue))
   \<and> (gates self message_id ob = Rejected OldMessage \<longleftrightarrow>
        (\<exists>t. message_timestamp ob = Value t \<and> t \<noteq> 0 \<and> t < server_start_time self))
   \<and> (message_timestamp ob = Value t \<and> server_start_time self \<le> t \<longrightarrow>
        gates self message_id ob = eligibility_gates self message_id ob)
   \<and> (message_timestamp ob = Value 0 \<or> message_timestamp ob = Unavailable \<longrightarrow>
        gates self message_id ob = eligibility_gates self message_id ob)"
proof (intro conjI impI)
  assume "message_timestamp ob = Value t \<and> t \<noteq> 0 \<and> t < server_start_time self"
  then have "gates self message_id ob = Rejected OldMessage"
    by (simp add: gates_def stale_def)
  then show "process_candidate self message_id ob = (self, [], Continue)"
    by (simp add: process_candidate_def process_unseen_def)
next
  show "gates self message_id ob = Rejected OldMessage \<longleftrightarrow>
        (\<exists>t. message_timestamp ob = Value t \<and> t \<noteq> 0 \<and> t < server_start_time self)"
    by (rule gates_old_iff)
next
  assume "message_timestamp ob = Value t \<and> server_start_time self \<le> t"
  then show "gates self message_id ob = eligibility_gates self message_id ob"
    by (simp add: gates_def stale_def)
next
  assume "message_timestamp ob = Value 0 \<or> message_timestamp ob = Unavailable"
  then show "gates self message_id ob = eligibility_gates self message_id ob"
    by (auto simp: gates_def stale_def)
qed

text \<open>
  The theorem at the fresh handler, started at 1000: the sample message received at 999 is
  skipped; received at 1000 it is not skipped as old, and neither is it when the timestamp
  fetch ends with \<open>None\<close>.
\<close>

theorem staleness_boundary_witness:
  "process_candidate fresh_handler ''m1'' (good_observation\<lparr>message_timestamp := Value 999\<rparr>) =
     (fresh_handler, [], Continue)
   \<and> gates fresh_handler ''m1'' (good_observation\<lparr>message_timestamp := Value 999\<rparr>) =
       Rejected OldMessage
   \<and> gates fresh_handler ''m1'' (good_observation\<lparr>message_timestamp := Value 1000\<rparr>) =
       eligibility_gates fresh_handler ''m1'' (good_observation\<lparr>message_timestamp := Value 1000\<rparr>)
   \<and> gates fresh_handler ''m1'' (good_observation\<lparr>message_timestamp := Value 1000\<rparr>)
       \<noteq> Rejected OldMessage
   \<and> gates fresh_handler ''m1'' (good_observation\<lparr>message_timestamp := Unavailable\<rparr>) =
       eligibility_gates fresh_handler ''m1'' (good_observation\<lparr>message_timestamp := Unavailable\<rparr>)"
proof -
  have before: "message_timestamp (good_observation\<lparr>message_timestamp := Value 999\<rparr>) = Value 999
      \<and> (999 :: real) \<noteq> 0 \<and> 999 < server_start_time fresh_handler"
    by (simp add: fresh_handler_def)
  have at: "message_timestamp (good_observation\<lparr>message_timestamp := Value 1000\<rparr>) = Value 1000
      \<and> server_start_time fresh_handler \<le> 1000"
    by (simp add: fresh_handler_def)
  have not_before: "\<not> (\<exists>t. message_timestamp (good_observation\<lparr>message_timestamp := Value 1000\<rparr>)
      = Value t \<and> t \<noteq> 0 \<and> t < server_start_time fresh_handler)"
    by (simp add: fresh_handler_def)
  have unknown: "message_timestamp (good_observation\<lparr>message_timestamp := Unavailable\<rparr>) = Value 0
      \<or> message_timestamp (good_observation\<lparr>message_timestamp := Unavailable\<rparr>) = Unavailable"
    by simp
  from before
    staleness_boundary [of "good_observation\<lparr>message_timestamp := Value 999\<rparr>" 999
      fresh_handler "''m1''"]
  have c1: "process_candidate fresh_handler ''m1''
      (good_observation\<lparr>message_timestamp := Value 999\<rparr>) = (fresh_handler, [], Continue)"
    and c1': "gates fresh_handler ''m1'' (good_observation\<lparr>message_timestamp := Value 999\<rparr>) =
      Rejected OldMessage"
    by blast+
  from at not_before
    staleness_boundary [of "good_observation\<lparr>message_timestamp := Value 1000\<rparr>" 1000
      fresh_handler "''m1''"]
  have c2: "gates fresh_handler ''m1'' (good_observation\<lparr>message_timestamp := Value 1000\<rparr>) =
      eligibility_gates fresh_handler ''m1'' (good_observation\<lparr>message_timestamp := Value 1000\<rparr>)"
    and c3: "gates fresh_handler ''m1'' (good_observation\<lparr>message_timestamp := Value 1000\<rparr>)
      \<noteq> Rejected OldMessage"
    by blast+
  from unknown
    staleness_boundary [of "good_observation\<lparr>message_timestamp := Unavailable\<rparr>" 0
      fresh_handler "''m1''"]
  have c4: "gates fresh_handler ''m1'' (good_observation\<lparr>message_timestamp := Unavailable\<rparr>) =
      eligibility_gates fresh_handler ''m1'' (good_observation\<lparr>message_timestamp := Unavailable\<rparr>)"
    by blast
  from c1 c1' c2 c3 c4 show ?thesis by (intro conjI)
qed

text \<open>
  C3 as stated fails when the timestamp fetch reports 0: 0 lies strictly before the start
  time 1000, and the message is not skipped; it passes every check, is acknowledged and
  goes to the agent.
\<close>

theorem staleness_zero_counterexample:
  "(0 :: real) < server_start_time fresh_handler
   \<and> gates fresh_handler ''m1'' (good_observation\<lparr>message_timestamp := Value 0\<rparr>) =
       Passed ''do the thing'' ''jonathanmingli@gmail.com'' ''CLAUDE''
   \<and> fst (snd (process_candidate fresh_handler ''m1''
        (good_observation\<lparr>message_timestamp := Value 0\<rparr>))) =
       [SendReply (Some ''thread-1'') ''jonathanmingli@gmail.com'' ''CLAUDE'' ''ack'',
        AgentInvoked ''m1'' ''do the thing'' ''jonathanmingli@gmail.com'',
        SendReply (Some ''thread-1'') ''jonathanmingli@gmail.com'' ''CLAUDE''
          (final_email ''done'')]"
  by code_simp

section \<open>Replies carry a marker\<close>

lemma contains_nil: "contains s []"
  by (cases s) simp_all

lemma contains_append_left: "contains (p @ suf) p"
  by (cases p) (simp_all add: contains_nil)

lemma lstrip_nonspace: "p \<noteq> [] \<Longrightarrow> \<not> isspace (hd p) \<Longrightarrow> lstrip (p @ rest) = p @ rest"
  by (cases p) (simp_all add: lstrip_def)

lemma rstrip_nonspace: "p \<noteq> [] \<Longrightarrow> \<not> isspace (last p) \<Longrightarrow> rstrip (p @ rest) = p @ rstrip rest"
proof -
  assume p: "p \<noteq> []" and l: "\<not> isspace (last p)"
  then have "dropWhile isspace (rev p) = rev p"
    by (cases "rev p") (simp_all add: last_rev [symmetric] hd_rev)
  then show ?thesis
    by (simp add: rstrip_def dropWhile_append)
qed

lemma strip_nonspace:
  "p \<noteq> [] \<Longrightarrow> \<not> isspace (hd p) \<Longrightarrow> \<not> isspace (last p) \<Longrightarrow> strip (p @ rest) = p @ rstrip rest"
  by (simp add: strip_def lstrip_nonspace rstrip_nonspace)

lemma patterns_nonspace:
  "\<forall>p \<in> set system_patterns. lower p \<noteq> [] \<and> \<not> isspace (hd (lower p)) \<and> \<not> isspace (last (lower p))"
  by code_simp

lemma carries_marker_pattern: "p \<in> set system_patterns \<Longrightarrow> carries_marker (p @ rest)"
proof -
  assume p: "p \<in> set system_patterns"
  with patterns_nonspace have "lower p \<noteq> []" "\<not> isspace (hd (lower p))" "\<not> isspace (last (lower p))"
    by blast+
  then have "strip (lower p @ lower rest) = lower p @ rstrip (lower rest)"
    by (rule strip_nonspace)
  then have "contains (strip (lower (p @ rest))) (lower p)"
    by (simp add: lower_def contains_append_left)
  with p show ?thesis
    unfolding carries_marker_def by blast
qed

lemma carries_marker_ack: "carries_marker (''ack'' @ tail)"
  by (rule carries_marker_pattern) (simp add: system_patterns_def)

lemma carries_marker_progress: "carries_marker (progress_email update_text @ tail)"
  using carries_marker_pattern [of "''Progress update:''" "[CHR 0x0A, CHR 0x0A] @ update_text @ tail"]
  by (simp add: system_patterns_def progress_email_def)

lemma carries_marker_final: "carries_marker (final_email response @ tail)"
  using carries_marker_pattern [of "''Task completed!''" "[CHR 0x0A, CHR 0x0A] @ response @ tail"]
  by (simp add: system_patterns_def final_email_def)

lemma carries_marker_error: "carries_marker (error_message claude_error @ tail)"
  using carries_marker_pattern [of "''Claude processing failed with error:''"
      "'' '' @ message claude_error @ tail"]
  by (simp add: system_patterns_def error_message_def)

section \<open>Effects of one pass\<close>

lemma reply_bodies_append: "reply_bodies (xs @ ys) = reply_bodies xs @ reply_bodies ys"
  by (induction xs rule: reply_bodies.induct) simp_all

lemma invocations_append: "invocations (xs @ ys) = invocations xs @ invocations ys"
  by (induction xs rule: invocations.induct) simp_all

lemma progress_callbacks_bodies:
  "progress_callbacks self thread sender subj answers n us = (self', evs, raised) \<Longrightarrow>
   \<forall>b \<in> set (reply_bodies evs). carries_marker b"
proof (induction us arbitrary: self n self' evs raised)
  case Nil
  then show ?case by simp
next
  case (Cons u us)
  show ?case
  proof (cases "truthy thread \<and> length u > 50 \<and> Suc n mod 3 = 0")
    case False
    with Cons.prems have "progress_callbacks self thread sender subj answers (Suc n) us = (self', evs, raised)"
      by auto
    then show ?thesis by (rule Cons.IH)
  next
    case True
    show ?thesis
    proof (cases "\<exists>e. answers (Suc n) = Raised e")
      case True
      with \<open>truthy thread \<and> length u > 50 \<and> Suc n mod 3 = 0\<close> Cons.prems
      have "evs = [SendReply thread sender subj (progress_email u)]"
        by auto
      then show ?thesis
        using carries_marker_progress [of u "[]"] by simp
    next
      case False
      obtain s1 e1 r1 where rec: "progress_callbacks (track_sent (answers (Suc n)) self) thread sender subj
                     answers (Suc n) us = (s1, e1, r1)"
        by (cases "progress_callbacks (track_sent (answers (Suc n)) self) thread sender subj
                     answers (Suc n) us") auto
      with False \<open>truthy thread \<and> length u > 50 \<and> Suc n mod 3 = 0\<close> Cons.prems
      have "evs = SendReply thread sender subj (progress_email u) # e1"
        by (auto split: fetched.splits)
      moreover from rec have "\<forall>b \<in> set (reply_bodies e1). carries_marker b"
        by (rule Cons.IH)
      ultimately show ?thesis
        using carries_marker_progress [of u "[]"] by simp
    qed
  qed
qed

lemma progress_callbacks_invocations:
  "progress_callbacks self thread sender subj answers n us = (self', evs, raised) \<Longrightarrow>
   invocations evs = []"
proof (induction us arbitrary: self n self' evs raised)
  case Nil
  then show ?case by simp
next
  case (Cons u us)
  show ?case
  proof (cases "truthy thread \<and> length u > 50 \<and> Suc n mod 3 = 0")
    case False
    with Cons.prems have "progress_callbacks self thread sender subj answers (Suc n) us = (self', evs, raised)"
      by auto
    then show ?thesis by (rule Cons.IH)
  next
    case True
    show ?thesis
    proof (cases "\<exists>e. answers (Suc n) = Raised e")
      case True
      with \<open>truthy thread \<and> length u > 50 \<and> Suc n mod 3 = 0\<close> Cons.prems
      have "evs = [SendReply thread sender subj (progress_email u)]"
        by auto
      then show ?thesis by simp
    next
      case False
      obtain s1 e1 r1 where rec: "progress_callbacks (track_sent (answers (Suc n)) self) thread sender subj
                     answers (Suc n) us = (s1, e1, r1)"
        by (cases "progress_callbacks (track_sent (answers (Suc n)) self) thread sender subj
                     answers (Suc n) us") auto
      with False \<open>truthy thread \<and> length u > 50 \<and> Suc n mod 3 = 0\<close> Cons.prems
      have "evs = SendReply thread sender subj (progress_email u) # e1"
        by (auto split: fetched.splits)
      moreover from rec have "invocations e1 = []"
        by (rule Cons.IH)
      ultimately show ?thesis by simp
    qed
  qed
qed

lemma acknowledge_bodies:
  "acknowledge self thread sender subj answer = (self', evs, raised) \<Longrightarrow>
   (\<forall>b \<in> set (reply_bodies evs). carries_marker b) \<and> invocations evs = []"
  using carries_marker_ack [of "[]"]
  by (auto simp: acknowledge_def split: if_splits fetched.splits)

lemma report_failure_bodies:
  "report_failure self thread sender subj claude_error answer = (self', evs, fl) \<Longrightarrow>
   (\<forall>b \<in> set (reply_bodies evs). carries_marker b) \<and> invocations evs = []"
  using carries_marker_error [of claude_error "[]"]
  by (auto simp: report_failure_def split: if_splits fetched.splits)

lemma progress_callbacks_no_thread:
  "\<not> truthy thread \<Longrightarrow> progress_callbacks self thread sender subj answers n us = (self, [], None)"
  by (induction us arbitrary: n) simp_all

lemma report_failure_no_thread:
  "\<not> truthy thread \<Longrightarrow> report_failure self thread sender subj claude_error answer = (self, [], Continue)"
  by (simp add: report_failure_def)

lemma run_agent_no_thread:
  "\<not> truthy thread \<Longrightarrow>
   run_agent self message_id thread content sender subj ob =
     (self, [AgentInvoked message_id content sender], Continue)"
  by (simp add: run_agent_def progress_callbacks_no_thread report_failure_no_thread split: sum.splits)

lemma run_agent_events:
  assumes "run_agent self message_id thread content sender subj ob = (self', evs, fl)"
  shows "\<exists>rest. evs = AgentInvoked message_id content sender # rest \<and> invocations rest = []
           \<and> (\<forall>b \<in> set (reply_bodies rest). carries_marker b)"
proof -
  obtain s1 e1 r1 where pc: "progress_callbacks self thread sender subj (progress_reply ob) 0
      (chunks (agent ob)) = (s1, e1, r1)"
    by (cases "progress_callbacks self thread sender subj (progress_reply ob) 0 (chunks (agent ob))") auto
  from pc have e1: "invocations e1 = []" "\<forall>b \<in> set (reply_bodies e1). carries_marker b"
    by (simp_all add: progress_callbacks_invocations progress_callbacks_bodies)
  have rf: "invocations e2 = [] \<and> (\<forall>b \<in> set (reply_bodies e2). carries_marker b)"
    if "report_failure s1 thread sender subj err (error_reply ob) = (s2, e2, f2)" for err s2 e2 f2
    using report_failure_bodies [OF that] by simp
  show ?thesis
  proof (cases r1)
    case (Some e)
    obtain s2 e2 f2 where r: "report_failure s1 thread sender subj
        (Exception OtherError (''Error launching Claude session: '' @ message e)) (error_reply ob) = (s2, e2, f2)"
      by (cases "report_failure s1 thread sender subj
        (Exception OtherError (''Error launching Claude session: '' @ message e)) (error_reply ob)") auto
    with assms pc Some have "evs = AgentInvoked message_id content sender # e1 @ e2"
      by (simp add: run_agent_def)
    with e1 rf [OF r] show ?thesis
      by (auto simp: invocations_append reply_bodies_append)
  next
    case None
    show ?thesis
    proof (cases "ending (agent ob)")
      case (Inl err)
      obtain s2 e2 f2 where r: "report_failure s1 thread sender subj err (error_reply ob) = (s2, e2, f2)"
        by (cases "report_failure s1 thread sender subj err (error_reply ob)") auto
      with assms pc None Inl have "evs = AgentInvoked message_id content sender # e1 @ e2"
        by (simp add: run_agent_def)
      with e1 rf [OF r] show ?thesis
        by (auto simp: invocations_append reply_bodies_append)
    next
      case (Inr response)
      show ?thesis
      proof (cases "truthy thread \<and> response \<noteq> []")
        case False
        with assms pc None Inr have "evs = AgentInvoked message_id content sender # e1"
          by (auto simp: run_agent_def)
        with e1 show ?thesis by simp
      next
        case True
        show ?thesis
        proof (cases "\<exists>e. final_reply ob = Raised e")
          case True
          then obtain e where e: "final_reply ob = Raised e" by blast
          obtain s2 e2 f2 where r: "report_failure s1 thread sender subj e (error_reply ob) = (s2, e2, f2)"
            by (cases "report_failure s1 thread sender subj e (error_reply ob)") auto
          with assms pc None Inr \<open>truthy thread \<and> response \<noteq> []\<close> e
          have "evs = AgentInvoked message_id content sender # e1
                  @ SendReply thread sender subj (final_email response) # e2"
            by (simp add: run_agent_def)
          with e1 rf [OF r] show ?thesis
            using carries_marker_final [of response "[]"]
            by (auto simp: invocations_append reply_bodies_append)
        next
          case False
          with assms pc None Inr \<open>truthy thread \<and> response \<noteq> []\<close>
          have "evs = AgentInvoked message_id content sender # e1
                  @ [SendReply thread sender subj (final_email response)]"
            by (auto simp: run_agent_def split: fetched.splits)
          with e1 show ?thesis
            using carries_marker_final [of response "[]"]
            by (auto simp: invocations_append reply_bodies_append)
        qed
      qed
    qed
  qed
qed

lemma track_sent_frame:
  "processed_messages (track_sent r self) = processed_messages self"
  "sent_message_ids self \<subseteq> sent_message_ids (track_sent r self)"
  by (auto simp: track_sent_def)

lemma progress_callbacks_frame:
  "progress_callbacks self thread sender subj answers n us = (self', evs, raised) \<Longrightarrow>
   processed_messages self' = processed_messages self
   \<and> sent_message_ids self \<subseteq> sent_message_ids self'"
proof (induction us arbitrary: self n self' evs raised)
  case Nil
  then show ?case by simp
next
  case (Cons u us)
  show ?case
  proof (cases "truthy thread \<and> length u > 50 \<and> Suc n mod 3 = 0")
    case False
    with Cons.prems have "progress_callbacks self thread sender subj answers (Suc n) us = (self', evs, raised)"
      by auto
    then show ?thesis by (rule Cons.IH)
  next
    case True
    show ?thesis
    proof (cases "\<exists>e. answers (Suc n) = Raised e")
      case True
      with \<open>truthy thread \<and> length u > 50 \<and> Suc n mod 3 = 0\<close> Cons.prems
      have "self' = self" by auto
      then show ?thesis by simp
    next
      case False
      obtain s1 e1 r1 where rec: "progress_callbacks (track_sent (answers (Suc n)) self) thread sender subj
                     answers (Suc n) us = (s1, e1, r1)"
        by (cases "progress_callbacks (track_sent (answers (Suc n)) self) thread sender subj
                     answers (Suc n) us") auto
      with False \<open>truthy thread \<and> length u > 50 \<and> Suc n mod 3 = 0\<close> Cons.prems
      have "self' = s1"
        by (auto split: fetched.splits)
      with Cons.IH [OF rec] track_sent_frame [where r = "answers (Suc n)" and self = self]
      show ?thesis by auto
    qed
  qed
qed

lemma acknowledge_frame:
  "acknowledge self thread sender subj answer = (self', evs, raised) \<Longrightarrow>
   processed_messages self' = processed_messages self
   \<and> sent_message_ids self \<subseteq> sent_message_ids self'"
  using track_sent_frame [where r = answer and self = self]
  by (auto simp: acknowledge_def split: if_splits fetched.splits)

lemma report_failure_frame:
  "report_failure self thread sender subj claude_error answer = (self', evs, fl) \<Longrightarrow>
   processed_messages self' = processed_messages self
   \<and> sent_message_ids self \<subseteq> sent_message_ids self'"
  using track_sent_frame [where r = answer and self = self]
  by (auto simp: report_failure_def split: if_splits fetched.splits)

lemma run_agent_frame:
  assumes "run_agent self message_id thread content sender subj ob = (self', evs, fl)"
  shows "processed_messages self' = processed_messages self
         \<and> sent_message_ids self \<subseteq> sent_message_ids self'"
proof -
  obtain s1 e1 r1 where pc: "progress_callbacks self thread sender subj (progress_reply ob) 0
      (chunks (agent ob)) = (s1, e1, r1)"
    by (cases "progress_callbacks self thread sender subj (progress_reply ob) 0 (chunks (agent ob))") auto
  note f1 = progress_callbacks_frame [OF pc]
  have rf: "processed_messages s2 = processed_messages self
      \<and> sent_message_ids self \<subseteq> sent_message_ids s2"
    if "report_failure s1 thread sender subj err (error_reply ob) = (s2, e2, f2)" for err s2 e2 f2
    using report_failure_frame [OF that] f1 by auto
  show ?thesis
  proof (cases r1)
    case (Some e)
    obtain s2 e2 f2 where r: "report_failure s1 thread sender subj
        (Exception OtherError (''Error launching Claude session: '' @ message e)) (error_reply ob) = (s2, e2, f2)"
      by (cases "report_failure s1 thread sender subj
        (Exception OtherError (''Error launching Claude session: '' @ message e)) (error_reply ob)") auto
    with assms pc Some have "self' = s2"
      by (simp add: run_agent_def)
    with rf [OF r] show ?thesis by simp
  next
    case None
    show ?thesis
    proof (cases "ending (agent ob)")
      case (Inl err)
      obtain s2 e2 f2 where r: "report_failure s1 thread sender subj err (error_reply ob) = (s2, e2, f2)"
        by (cases "report_failure s1 thread sender subj err (error_reply ob)") auto
      with assms pc None Inl have "self' = s2"
        by (simp add: run_agent_def)
      with rf [OF r] show ?thesis by simp
    next
      case (Inr response)
      show ?thesis
      proof (cases "truthy thread \<and> response \<noteq> []")
        case False
        with assms pc None Inr have "self' = s1"
          by (auto simp: run_agent_def)
        with f1 show ?thesis by simp
      next
        case True
        show ?thesis
        proof (cases "\<exists>e. final_reply ob = Raised e")
          case True
          then obtain e where e: "final_reply ob = Raised e" by blast
          obtain s2 e2 f2 where r: "report_failure s1 thread sender subj e (error_reply ob) = (s2, e2, f2)"
            by (cases "report_failure s1 thread sender subj e (error_reply ob)") auto
          with assms pc None Inr \<open>truthy thread \<and> response \<noteq> []\<close> e
          have "self' = s2"
            by (simp add: run_agent_def)
          with rf [OF r] show ?thesis by simp
        next
          case False
          with assms pc None Inr \<open>truthy thread \<and> response \<noteq> []\<close>
          have "self' = track_sent (final_reply ob) s1"
            by (auto simp: run_agent_def split: fetched.splits)
          with f1 track_sent_frame [where r = "final_reply ob" and self = s1] show ?thesis by auto
        qed
      qed
    qed
  qed
qed

lemma dispatch_unfold:
  "\<forall>e. thread_id ob \<noteq> Raised e \<Longrightarrow>
   dispatch self message_id ob content sender subj =
     (case acknowledge (self\<lparr>processed_messages := insert message_id (processed_messages self)\<rparr>)
             (py_value (thread_id ob)) sender subj (ack_reply ob) of
        (self1, evs, Some e) \<Rightarrow> (self1, evs, Abort e)
      | (self1, evs, None) \<Rightarrow>
          (case run_agent self1 message_id (py_value (thread_id ob)) content sender subj ob of
             (self2, evs', fl) \<Rightarrow> (self2, evs @ evs', fl)))"
  by (cases "thread_id ob") (simp_all add: dispatch_def)

lemma dispatch_effects:
  assumes "dispatch self message_id ob content sender subj = (self', evs, fl)"
  shows "processed_messages self' = insert message_id (processed_messages self)
         \<and> sent_message_ids self \<subseteq> sent_message_ids self'
         \<and> (invocations evs = [] \<or> invocations evs = [message_id])
         \<and> (\<forall>b \<in> set (reply_bodies evs). carries_marker b)"
proof (cases "\<exists>e. thread_id ob = Raised e")
  case True
  with assms show ?thesis by (auto simp: dispatch_def)
next
  case no_raise: False
  then have False: "\<forall>e. thread_id ob \<noteq> Raised e" by simp
  define marked where "marked = self\<lparr>processed_messages := insert message_id (processed_messages self)\<rparr>"
  obtain s1 e1 r1 where ack: "acknowledge marked (py_value (thread_id ob)) sender subj (ack_reply ob) = (s1, e1, r1)"
    by (cases "acknowledge marked (py_value (thread_id ob)) sender subj (ack_reply ob)") auto
  note fa = acknowledge_frame [OF ack] and ba = acknowledge_bodies [OF ack]
  show ?thesis
  proof (cases r1)
    case (Some e)
    with assms ack have "self' = s1" "evs = e1"
      by (simp_all add: dispatch_unfold [OF False] marked_def)
    with fa ba show ?thesis by (simp add: marked_def)
  next
    case None
    obtain s2 e2 f2 where run: "run_agent s1 message_id (py_value (thread_id ob)) content sender subj ob = (s2, e2, f2)"
      by (cases "run_agent s1 message_id (py_value (thread_id ob)) content sender subj ob") auto
    from run_agent_events [OF run] obtain rest where rest: "e2 = AgentInvoked message_id content sender # rest"
        "invocations rest = []" "\<forall>b \<in> set (reply_bodies rest). carries_marker b"
      by blast
    from assms ack None run have "self' = s2" "evs = e1 @ e2"
      by (simp_all add: dispatch_unfold [OF False] marked_def)
    with fa ba run_agent_frame [OF run] rest show ?thesis
      by (auto simp: marked_def invocations_append reply_bodies_append)
  qed
qed

lemma process_candidate_effects:
  assumes "process_candidate self message_id ob = (self', evs, fl)"
  shows "processed_messages self \<subseteq> processed_messages self'
         \<and> sent_message_ids self \<subseteq> sent_message_ids self'
         \<and> (invocations evs = []
             \<or> invocations evs = [message_id] \<and> message_id \<notin> processed_messages self
                \<and> message_id \<in> processed_messages self')
         \<and> (\<forall>b \<in> set (reply_bodies evs). carries_marker b)"
proof (cases "message_id \<in> processed_messages self")
  case True
  with assms show ?thesis by (auto simp: process_candidate_def)
next
  case False
  show ?thesis
  proof (cases "gates self message_id ob")
    case (Rejected r)
    with assms False show ?thesis by (auto simp: process_candidate_def process_unseen_def)
  next
    case (Failed e)
    with assms False show ?thesis by (auto simp: process_candidate_def process_unseen_def)
  next
    case (Passed c s j)
    with assms False have "dispatch self message_id ob c s j = (self', evs, fl)"
      by (simp add: process_candidate_def process_unseen_def)
    from dispatch_effects [OF this] False show ?thesis by auto
  qed
qed

lemma process_candidates_effects:
  "process_candidates self obs i cands = (self', evs, fl) \<Longrightarrow>
   processed_messages self \<subseteq> processed_messages self'
   \<and> sent_message_ids self \<subseteq> sent_message_ids self'
   \<and> set (invocations evs) \<inter> processed_messages self = {}
   \<and> set (invocations evs) \<subseteq> processed_messages self'
   \<and> distinct (invocations evs)
   \<and> (\<forall>b \<in> set (reply_bodies evs). carries_marker b)"
proof (induction cands arbitrary: self i self' evs fl)
  case Nil
  then show ?case by simp
next
  case (Cons message_id rest)
  obtain s1 e1 f1 where one: "process_candidate self message_id (obs i) = (s1, e1, f1)"
    by (cases "process_candidate self message_id (obs i)") auto
  note eff = process_candidate_effects [OF one]
  show ?case
  proof (cases f1)
    case (Abort e)
    with Cons.prems one have "self' = s1" "evs = e1" by simp_all
    with eff show ?thesis by auto
  next
    case Continue
    obtain s2 e2 f2 where more: "process_candidates s1 obs (Suc i) rest = (s2, e2, f2)"
      by (cases "process_candidates s1 obs (Suc i) rest") auto
    note ih = Cons.IH [OF more]
    from Cons.prems one Continue more have "self' = s2" "evs = e1 @ e2" by simp_all
    with eff ih show ?thesis
      by (auto simp: invocations_append reply_bodies_append)
  qed
qed

lemma process_candidate_recorded:
  "message_id \<in> processed_messages self \<Longrightarrow>
   process_candidate self message_id ob = (self, [], Continue)"
  by (simp add: process_candidate_def)

lemma process_candidates_skips_recorded:
  assumes "message_id \<in> processed_messages self"
  shows "message_id \<notin> set (invocations (fst (snd (process_candidates self obs i cands))))"
proof -
  obtain s1 e1 f1 where run: "process_candidates self obs i cands = (s1, e1, f1)"
    by (cases "process_candidates self obs i cands") auto
  from process_candidates_effects [OF run] have "set (invocations e1) \<inter> processed_messages self = {}"
    by simp
  with assms run show ?thesis by auto
qed

lemma process_notification_skips_recorded:
  assumes "message_id \<in> processed_messages (cleanup_processed_messages list_h list_m (now n) self)"
  shows "message_id \<notin> set (invocations (fst (snd (process_notification list_h list_m self n))))"
proof -
  define cleaned where "cleaned = cleanup_processed_messages list_h list_m (now n) self"
  define claimed where
    "claimed = cleaned\<lparr>processed_history_ids := insert (historyId n) (processed_history_ids cleaned)\<rparr>"
  from assms have rec: "message_id \<in> processed_messages claimed"
    by (simp add: claimed_def cleaned_def)
  show ?thesis
  proof (cases "historyId n \<in> processed_history_ids cleaned")
    case True
    then show ?thesis
      by (simp add: process_notification_def cleaned_def [symmetric])
  next
    case False
    show ?thesis
    proof (cases "resolve n")
      case (Value recent_messages)
      obtain s1 e1 f1 where run: "process_candidates claimed (observe n) 0 recent_messages = (s1, e1, f1)"
        by (cases "process_candidates claimed (observe n) 0 recent_messages") auto
      from process_candidates_skips_recorded [OF rec, of "observe n" 0 recent_messages] run
      have "message_id \<notin> set (invocations e1)" by simp
      with False Value run show ?thesis
        by (cases f1)
          (simp_all add: process_notification_def cleaned_def [symmetric] claimed_def [symmetric] Let_def)
    next
      case Unavailable
      with False show ?thesis
        by (simp add: process_notification_def cleaned_def [symmetric])
    next
      case (Raised e)
      with False show ?thesis
        by (simp add: process_notification_def cleaned_def [symmetric])
    qed
  qed
qed

section \<open>Notifications one after the other\<close>

text \<open>
  A pass changes the handler only in \<open>processed_messages\<close> and \<open>sent_message_ids\<close>; the time
  of the last clean-up stays. So as long as no clean-up is due, notifications processed one
  after the other call the agent at most once for each message id, and never for an id that
  was in \<open>processed_messages\<close> before.
\<close>

lemma track_sent_clock: "last_cleanup_time (track_sent r self) = last_cleanup_time self"
  by (simp add: track_sent_def)

lemma progress_callbacks_clock:
  "progress_callbacks self thread sender subj answers n us = (self', evs, raised) \<Longrightarrow>
   last_cleanup_time self' = last_cleanup_time self"
proof (induction us arbitrary: self n self' evs raised)
  case Nil
  then show ?case by simp
next
  case (Cons u us)
  show ?case
  proof (cases "truthy thread \<and> length u > 50 \<and> Suc n mod 3 = 0")
    case False
    with Cons.prems
    have "progress_callbacks self thread sender subj answers (Suc n) us = (self', evs, raised)"
      by auto
    then show ?thesis by (rule Cons.IH)
  next
    case True
    show ?thesis
    proof (cases "\<exists>e. answers (Suc n) = Raised e")
      case True
      with \<open>truthy thread \<and> length u > 50 \<and> Suc n mod 3 = 0\<close> Cons.prems
      have "self' = self" by auto
      then show ?thesis by simp
    next
      case False
      obtain s1 e1 r1 where rec:
        "progress_callbacks (track_sent (answers (Suc n)) self) thread sender subj
           answers (Suc n) us = (s1, e1, r1)"
        by (cases "progress_callbacks (track_sent (answers (Suc n)) self) thread sender subj
                     answers (Suc n) us") auto
      with False \<open>truthy thread \<and> length u > 50 \<and> Suc n mod 3 = 0\<close> Cons.prems
      have "self' = s1"
        by (auto split: fetched.splits)
      with Cons.IH [OF rec] show ?thesis
        by (simp add: track_sent_clock)
    qed
  qed
qed

lemma acknowledge_clock:
  "acknowledge self thread sender subj answer = (self', evs, raised) \<Longrightarrow>
   last_cleanup_time self' = last_cleanup_time self"
  by (auto simp: acknowledge_def track_sent_clock split: if_splits fetched.splits)

lemma report_failure_clock:
  "report_failure self thread sender subj claude_error answer = (self', evs, fl) \<Longrightarrow>
   last_cleanup_time self' = last_cleanup_time self"
  by (auto simp: report_failure_def track_sent_clock split: if_splits fetched.splits)

lemma run_agent_clock:
  assumes "run_agent self message_id thread content sender subj ob = (self', evs, fl)"
  shows "last_cleanup_time self' = last_cleanup_time self"
proof -
  obtain s1 e1 r1 where pc: "progress_callbacks self thread sender subj (progress_reply ob) 0
      (chunks (agent ob)) = (s1, e1, r1)"
    by (cases "progress_callbacks self thread sender subj (progress_reply ob) 0 (chunks (agent ob))")
      auto
  note c1 = progress_callbacks_clock [OF pc]
  have rf: "last_cleanup_time s2 = last_cleanup_time self"
    if "report_failure s1 thread sender subj err (error_reply ob) = (s2, e2, f2)" for err s2 e2 f2
    using report_failure_clock [OF that] c1 by simp
  show ?thesis
  proof (cases r1)
    case (Some e)
    obtain s2 e2 f2 where r: "report_failure s1 thread sender subj
        (Exception OtherError (''Error launching Claude session: '' @ message e)) (error_reply ob)
          = (s2, e2, f2)"
      by (cases "report_failure s1 thread sender subj
        (Exception OtherError (''Error launching Claude session: '' @ message e)) (error_reply ob)")
        auto
    with assms pc Some have "self' = s2"
      by (simp add: run_agent_def)
    with rf [OF r] show ?thesis by simp
  next
    case None
    show ?thesis
    proof (cases "ending (agent ob)")
      case (Inl err)
      obtain s2 e2 f2 where r: "report_failure s1 thread sender subj err (error_reply ob) = (s2, e2, f2)"
        by (cases "report_failure s1 thread sender subj err (error_reply ob)") auto
      with assms pc None Inl have "self' = s2"
        by (simp add: run_agent_def)
      with rf [OF r] show ?thesis by simp
    next
      case (Inr response)
      show ?thesis
      proof (cases "truthy thread \<and> response \<noteq> []")
        case False
        with assms pc None Inr have "self' = s1"
          by (auto simp: run_agent_def)
        with c1 show ?thesis by simp
      next
        case True
        show ?thesis
        proof (cases "\<exists>e. final_reply ob = Raised e")
          case True
          then obtain e where e: "final_reply ob = Raised e" by blast
          obtain s2 e2 f2 where r: "report_failure s1 thread sender subj e (error_reply ob) = (s2, e2, f2)"
            by (cases "report_failure s1 thread sender subj e (error_reply ob)") auto
          with assms pc None Inr \<open>truthy thread \<and> response \<noteq> []\<close> e
          have "self' = s2"
            by (simp add: run_agent_def)
          with rf [OF r] show ?thesis by simp
        next
          case False
          with assms pc None Inr \<open>truthy thread \<and> response \<noteq> []\<close>
          have "self' = track_sent (final_reply ob) s1"
            by (auto simp: run_agent_def split: fetched.splits)
          with c1 show ?thesis by (simp add: track_sent_clock)
        qed
      qed
    qed
  qed
qed

lemma dispatch_clock:
  assumes "dispatch self message_id ob content sender subj = (self', evs, fl)"
  shows "last_cleanup_time self' = last_cleanup_time self"
proof (cases "\<exists>e. thread_id ob = Raised e")
  case True
  with assms show ?thesis by (auto simp: dispatch_def)
next
  case no_raise: False
  then have False: "\<forall>e. thread_id ob \<noteq> Raised e" by simp
  define marked where "marked = self\<lparr>processed_messages := insert message_id (processed_messages self)\<rparr>"
  obtain s1 e1 r1 where ack:
    "acknowledge marked (py_value (thread_id ob)) sender subj (ack_reply ob) = (s1, e1, r1)"
    by (cases "acknowledge marked (py_value (thread_id ob)) sender subj (ack_reply ob)") auto
  note ca = acknowledge_clock [OF ack]
  show ?thesis
  proof (cases r1)
    case (Some e)
    with assms ack have "self' = s1"
      by (simp_all add: dispatch_unfold [OF False] marked_def)
    with ca show ?thesis by (simp add: marked_def)
  next
    case None
    obtain s2 e2 f2 where run:
      "run_agent s1 message_id (py_value (thread_id ob)) content sender subj ob = (s2, e2, f2)"
      by (cases "run_agent s1 message_id (py_value (thread_id ob)) content sender subj ob") auto
    from assms ack None run have "self' = s2"
      by (simp_all add: dispatch_unfold [OF False] marked_def)
    with ca run_agent_clock [OF run] show ?thesis
      by (simp add: marked_def)
  qed
qed

lemma process_candidate_clock:
  assumes "process_candidate self message_id ob = (self', evs, fl)"
  shows "last_cleanup_time self' = last_cleanup_time self"
proof (cases "message_id \<in> processed_messages self")
  case True
  with assms show ?thesis by (auto simp: process_candidate_def)
next
  case False
  show ?thesis
  proof (cases "gates self message_id ob")
    case (Rejected r)
    with assms False show ?thesis by (auto simp: process_candidate_def process_unseen_def)
  next
    case (Failed e)
    with assms False show ?thesis by (auto simp: process_candidate_def process_unseen_def)
  next
    case (Passed c s j)
    with assms False have "dispatch self message_id ob c s j = (self', evs, fl)"
      by (simp add: process_candidate_def process_unseen_def)
    then show ?thesis by (rule dispatch_clock)
  qed
qed

lemma process_candidates_clock:
  "process_candidates self obs i cands = (self', evs, fl) \<Longrightarrow>
   last_cleanup_time self' = last_cleanup_time self"
proof (induction cands arbitrary: self i self' evs fl)
  case Nil
  then show ?case by simp
next
  case (Cons message_id rest)
  obtain s1 e1 f1 where one: "process_candidate self message_id (obs i) = (s1, e1, f1)"
    by (cases "process_candidate self message_id (obs i)") auto
  note c1 = process_candidate_clock [OF one]
  show ?case
  proof (cases f1)
    case (Abort e)
    with Cons.prems one have "self' = s1" by simp
    with c1 show ?thesis by simp
  next
    case Continue
    obtain s2 e2 f2 where more: "process_candidates s1 obs (Suc i) rest = (s2, e2, f2)"
      by (cases "process_candidates s1 obs (Suc i) rest") auto
    from Cons.prems one Continue more have "self' = s2" by simp
    with c1 Cons.IH [OF more] show ?thesis by simp
  qed
qed

lemma process_notification_within_hour:
  assumes "now n - last_cleanup_time self \<le> 3600"
    and "process_notification list_h list_m self n = (self', evs, how)"
  shows "last_cleanup_time self' = last_cleanup_time self
         \<and> processed_messages self \<subseteq> processed_messages self'
         \<and> set (invocations evs) \<inter> processed_messages self = {}
         \<and> set (invocations evs) \<subseteq> processed_messages self'
         \<and> distinct (invocations evs)"
proof -
  from assms(1) have cl: "cleanup_processed_messages list_h list_m (now n) self = self"
    by (simp add: cleanup_processed_messages_def)
  define claimed where
    "claimed = self\<lparr>processed_history_ids := insert (historyId n) (processed_history_ids self)\<rparr>"
  show ?thesis
  proof (cases "historyId n \<in> processed_history_ids self")
    case True
    with assms(2) cl show ?thesis
      by (auto simp: process_notification_def)
  next
    case False
    show ?thesis
    proof (cases "resolve n")
      case (Value recent_messages)
      obtain s1 e1 f1 where run: "process_candidates claimed (observe n) 0 recent_messages = (s1, e1, f1)"
        by (cases "process_candidates claimed (observe n) 0 recent_messages") auto
      with assms(2) cl False Value have "self' = s1" "evs = e1"
        by (cases f1; simp add: process_notification_def claimed_def [symmetric] Let_def)+
      with process_candidates_effects [OF run] process_candidates_clock [OF run]
      show ?thesis
        by (simp add: claimed_def)
    next
      case Unavailable
      with assms(2) cl False show ?thesis
        by (auto simp: process_notification_def)
    next
      case (Raised e)
      with assms(2) cl False show ?thesis
        by (auto simp: process_notification_def)
    qed
  qed
qed

lemma sequential_at_most_once:
  "\<forall>n \<in> set ns. now n - last_cleanup_time self \<le> 3600 \<Longrightarrow>
   distinct (invocations (snd (process_notifications list_h list_m self ns)))
   \<and> set (invocations (snd (process_notifications list_h list_m self ns)))
       \<inter> processed_messages self = {}"
proof (induction ns arbitrary: self)
  case Nil
  show ?case by simp
next
  case (Cons n ns)
  obtain s1 e1 h1 where one: "process_notification list_h list_m self n = (s1, e1, h1)"
    by (cases "process_notification list_h list_m self n") auto
  from Cons.prems have "now n - last_cleanup_time self \<le> 3600" by simp
  note eff = process_notification_within_hour [OF this one]
  obtain s2 e2 where more: "process_notifications list_h list_m s1 ns = (s2, e2)"
    by (cases "process_notifications list_h list_m s1 ns") auto
  from Cons.prems eff have "\<forall>n \<in> set ns. now n - last_cleanup_time s1 \<le> 3600" by simp
  from Cons.IH [OF this] more
  have ih: "distinct (invocations e2)" "set (invocations e2) \<inter> processed_messages s1 = {}"
    by simp_all
  from one more have "snd (process_notifications list_h list_m self (n # ns)) = e1 @ e2"
    by simp
  with eff ih show ?case
    by (auto simp: invocations_append)
qed

section \<open>No self-loop\<close>

text \<open>
  C8. Every reply that a pass sends has a body that carries a marker: the acknowledgment
  \<open>ack\<close>, a progress update, the final result and the error notice all do, whatever text
  the agent produced and whatever follows the body when the mailbox hands it back. A body
  that carries a marker is classified as system-generated for every handler state, sender
  and message id, and so is every message whose id is in \<open>sent_message_ids\<close>. A candidate
  whose body, if the fetch yields it, carries a marker, or whose id is in \<open>sent_message_ids\<close>,
  is skipped: the pass leaves the handler as it was, sends nothing and does not call the
  agent.
\<close>

theorem no_self_loop:
  "(\<forall>b \<in> set (reply_bodies (fst (snd (process_candidate self message_id ob)))). carries_marker b)
   \<and> carries_marker (''ack'' @ tail)
   \<and> carries_marker (progress_email update_text @ tail)
   \<and> carries_marker (final_email response @ tail)
   \<and> carries_marker (error_message claude_error @ tail)
   \<and> (carries_marker body \<or> message_id' \<in> sent_message_ids self' \<longrightarrow>
        fst (is_system_generated_email self' body sender' message_id'))
   \<and> (message_id' \<in> sent_message_ids self'
        \<or> (\<forall>content. message_content ob' = Value content \<longrightarrow> carries_marker content) \<longrightarrow>
        fst (process_candidate self' message_id' ob') = self'
        \<and> fst (snd (process_candidate self' message_id' ob')) = [])"
proof (intro conjI impI)
  obtain s1 e1 f1 where one: "process_candidate self message_id ob = (s1, e1, f1)"
    by (cases "process_candidate self message_id ob") auto
  from process_candidate_effects [OF one] one
  show "\<forall>b \<in> set (reply_bodies (fst (snd (process_candidate self message_id ob)))). carries_marker b"
    by simp
  show "carries_marker (''ack'' @ tail)"
    by (rule carries_marker_ack)
  show "carries_marker (progress_email update_text @ tail)"
    by (rule carries_marker_progress)
  show "carries_marker (final_email response @ tail)"
    by (rule carries_marker_final)
  show "carries_marker (error_message claude_error @ tail)"
    by (rule carries_marker_error)
  have sys: "fst (is_system_generated_email self' body s message_id')"
    if "carries_marker body \<or> message_id' \<in> sent_message_ids self'" for s
    using that by (auto simp: is_system_generated_email_iff carries_marker_def)
  then show "fst (is_system_generated_email self' body sender' message_id')"
    if "carries_marker body \<or> message_id' \<in> sent_message_ids self'"
    using that by simp
  {
    assume a: "message_id' \<in> sent_message_ids self'
        \<or> (\<forall>content. message_content ob' = Value content \<longrightarrow> carries_marker content)"
    have "fst (is_system_generated_email self' c s message_id')"
      if "message_content ob' = Value c" for c s
      using that a by (auto simp: is_system_generated_email_iff carries_marker_def)
    from system_generated_is_skipped [OF this]
    show "fst (process_candidate self' message_id' ob') = self'"
      and "fst (snd (process_candidate self' message_id' ob')) = []"
      by simp_all
  }
qed

text \<open>
  The theorem at the sample message: the pass sends the acknowledgment and the final result,
  and when the final result comes back as a candidate with the right sender, recipient and
  subject, the pass for it sends nothing and does not call the agent.
\<close>

theorem no_self_loop_witness:
  "reply_bodies (fst (snd (process_candidate fresh_handler ''m1'' good_observation))) =
     [''ack'', final_email ''done'']
   \<and> carries_marker ''ack''
   \<and> carries_marker (final_email ''done'')
   \<and> fst (is_system_generated_email fresh_handler (final_email ''done'')
        ''jonathanmingli@gmail.com'' ''m2'')
   \<and> fst (snd (process_candidate fresh_handler ''m2''
        (good_observation\<lparr>message_content := Value (final_email ''done'')\<rparr>))) = []"
proof -
  have bodies: "reply_bodies (fst (snd (process_candidate fresh_handler ''m1'' good_observation))) =
      [''ack'', final_email ''done'']"
    by code_simp
  have content: "message_content (good_observation\<lparr>message_content := Value (final_email ''done'')\<rparr>)
      = Value (final_email ''done'')"
    by simp
  note inst = no_self_loop [of fresh_handler "''m1''" good_observation "[]" "[]" "''done''"
      "Exception OtherError []" "final_email ''done''" "''m2''" fresh_handler
      "''jonathanmingli@gmail.com''"
      "good_observation\<lparr>message_content := Value (final_email ''done'')\<rparr>"]
  from inst have m1: "carries_marker ''ack''" and m2: "carries_marker (final_email ''done'')"
    by simp_all
  from m2 content
  have "\<forall>c. message_content (good_observation\<lparr>message_content := Value (final_email ''done'')\<rparr>)
      = Value c \<longrightarrow> carries_marker c"
    by simp
  with inst
  have "fst (snd (process_candidate fresh_handler ''m2''
        (good_observation\<lparr>message_content := Value (final_email ''done'')\<rparr>))) = []"
    by blast
  moreover from inst m2
  have "fst (is_system_generated_email fresh_handler (final_email ''done'')
        ''jonathanmingli@gmail.com'' ''m2'')"
    by blast
  ultimately show ?thesis
    using bodies m1 m2 by (intro conjI)
qed

section \<open>A thread id that is unavailable\<close>

text \<open>
  C10. Let a message that is not yet in \<open>processed_messages\<close> pass every gate, and let the
  fetch of its thread id give \<open>None\<close>. Then the pass adds the message id to
  \<open>processed_messages\<close> and calls the agent with the fetched body, and that call is its only
  effect: no acknowledgment, no progress update, no final result and no error notice is
  sent, whatever the agent streams and however it ends. The message is not processed again:
  a later pass for it changes nothing and has no effect, the rest of the candidate list
  does not call the agent for it, and neither does any later notification for which the
  id is still in \<open>processed_messages\<close> after the clean-up, nor any sequence of later
  notifications processed before the next clean-up is due.
\<close>

theorem unavailable_thread_is_silent:
  assumes "message_id \<notin> processed_messages self"
    and "gates self message_id ob = Passed content sender subj"
    and "thread_id ob = Unavailable"
  shows "message_content ob = Value content
    \<and> process_candidate self message_id ob =
        (self\<lparr>processed_messages := insert message_id (processed_messages self)\<rparr>,
         [AgentInvoked message_id content sender], Continue)
    \<and> process_candidate
          (self\<lparr>processed_messages := insert message_id (processed_messages self)\<rparr>) message_id ob' =
        (self\<lparr>processed_messages := insert message_id (processed_messages self)\<rparr>, [], Continue)
    \<and> message_id \<notin> set (invocations (fst (snd (process_candidates
          (self\<lparr>processed_messages := insert message_id (processed_messages self)\<rparr>) obs i cands))))
    \<and> (message_id \<in> processed_messages (cleanup_processed_messages list_h list_m (now n) later) \<longrightarrow>
        message_id \<notin> set (invocations (fst (snd (process_notification list_h list_m later n)))))
    \<and> (message_id \<in> processed_messages later
        \<and> (\<forall>n \<in> set ns. now n - last_cleanup_time later \<le> 3600) \<longrightarrow>
        message_id \<notin> set (invocations (snd (process_notifications list_h list_m later ns))))"
proof (intro conjI impI)
  from assms(2) show "message_content ob = Value content"
    using gates_Passed eligibility_gates_Passed by blast
  have "dispatch self message_id ob content sender subj =
      (self\<lparr>processed_messages := insert message_id (processed_messages self)\<rparr>,
       [AgentInvoked message_id content sender], Continue)"
    using assms(3) by (simp add: dispatch_def acknowledge_def run_agent_no_thread)
  with assms(1,2) show "process_candidate self message_id ob =
        (self\<lparr>processed_messages := insert message_id (processed_messages self)\<rparr>,
         [AgentInvoked message_id content sender], Continue)"
    by (simp add: process_candidate_def process_unseen_def)
  show "process_candidate
          (self\<lparr>processed_messages := insert message_id (processed_messages self)\<rparr>) message_id ob' =
        (self\<lparr>processed_messages := insert message_id (processed_messages self)\<rparr>, [], Continue)"
    by (rule process_candidate_recorded) simp
  show "message_id \<notin> set (invocations (fst (snd (process_candidates
          (self\<lparr>processed_messages := insert message_id (processed_messages self)\<rparr>) obs i cands))))"
    by (rule process_candidates_skips_recorded) simp
  show "message_id \<notin> set (invocations (fst (snd (process_notification list_h list_m later n))))"
    if "message_id \<in> processed_messages (cleanup_processed_messages list_h list_m (now n) later)"
    using that by (rule process_notification_skips_recorded)
  show "message_id \<notin> set (invocations (snd (process_notifications list_h list_m later ns)))"
    if "message_id \<in> processed_messages later
        \<and> (\<forall>n \<in> set ns. now n - last_cleanup_time later \<le> 3600)"
    using that sequential_at_most_once [of ns later list_h list_m] by auto
qed

text \<open>
  The theorem at the sample message with the thread id unavailable: the agent is called with
  \<open>do the thing\<close>, nothing is sent, a second pass for the message does nothing, and the two
  sample notifications, which name the message again, do not call the agent for it.
\<close>

theorem unavailable_thread_is_silent_witness:
  "process_candidate fresh_handler ''m1'' (good_observation\<lparr>thread_id := Unavailable\<rparr>) =
     (fresh_handler\<lparr>processed_messages := {''m1''}\<rparr>,
      [AgentInvoked ''m1'' ''do the thing'' ''jonathanmingli@gmail.com''], Continue)
   \<and> process_candidate (fresh_handler\<lparr>processed_messages := {''m1''}\<rparr>) ''m1'' good_observation =
     (fresh_handler\<lparr>processed_messages := {''m1''}\<rparr>, [], Continue)
   \<and> ''m1'' \<notin> set (invocations (fst (snd (process_notification (sample_order 0) (sample_order 0)
        (fresh_handler\<lparr>processed_messages := {''m1''}\<rparr>) first_notification))))
   \<and> ''m1'' \<notin> set (invocations (snd (process_notifications (sample_order 0) (sample_order 0)
        (fresh_handler\<lparr>processed_messages := {''m1''}\<rparr>)
        [first_notification, second_notification])))"
proof -
  have unseen: "''m1'' \<notin> processed_messages fresh_handler"
    by (simp add: fresh_handler_def)
  have passed: "gates fresh_handler ''m1'' (good_observation\<lparr>thread_id := Unavailable\<rparr>) =
      Passed ''do the thing'' ''jonathanmingli@gmail.com'' ''CLAUDE''"
    by code_simp
  have none: "thread_id (good_observation\<lparr>thread_id := Unavailable\<rparr>) = Unavailable"
    by simp
  have marked: "fresh_handler\<lparr>processed_messages := insert ''m1'' (processed_messages fresh_handler)\<rparr>
      = fresh_handler\<lparr>processed_messages := {''m1''}\<rparr>"
    by (simp add: fresh_handler_def)
  have kept: "''m1'' \<in> processed_messages (cleanup_processed_messages (sample_order 0)
      (sample_order 0) (now first_notification) (fresh_handler\<lparr>processed_messages := {''m1''}\<rparr>))"
    by (simp add: cleanup_processed_messages_def fresh_handler_def first_notification_def)
  have within: "''m1'' \<in> processed_messages (fresh_handler\<lparr>processed_messages := {''m1''}\<rparr>)
      \<and> (\<forall>n \<in> set [first_notification, second_notification].
            now n - last_cleanup_time (fresh_handler\<lparr>processed_messages := {''m1''}\<rparr>) \<le> 3600)"
    by (simp add: fresh_handler_def first_notification_def second_notification_def)
  from unavailable_thread_is_silent [OF unseen passed none,
      of good_observation "\<lambda>i. good_observation" 0 "[]" "sample_order 0" "sample_order 0"
        first_notification "fresh_handler\<lparr>processed_messages := {''m1''}\<rparr>"
        "[first_notification, second_notification]"]
    kept within
  show ?thesis
    unfolding marked by blast
qed

section \<open>Progress replies\<close>

lemma numbered_Cons: "numbered n (u # us) = (Suc n, u) # numbered (Suc n) us"
proof -
  have "[Suc n..<Suc n + length (u # us)] = Suc n # [Suc (Suc n)..<Suc (Suc n) + length us]"
    by (subst upt_rec) simp
  then show ?thesis by (simp add: numbered_def)
qed

lemma forwarded_Nil: "forwarded n [] = []"
  by (simp add: forwarded_def numbered_def)

lemma forwarded_Cons:
  "forwarded n (u # us) =
     (if Suc n mod 3 = 0 \<and> 50 < length u then (Suc n, u) # forwarded (Suc n) us
      else forwarded (Suc n) us)"
  by (simp add: forwarded_def numbered_Cons)

lemma progress_callbacks_forwarded:
  assumes "truthy thread" and "\<forall>k e. answers k \<noteq> Raised e"
  shows "\<exists>self'. progress_callbacks self thread sender subj answers n us =
           (self', map (\<lambda>(k, u). SendReply thread sender subj (progress_email u)) (forwarded n us), None)
         \<and> sent_message_ids self \<subseteq> sent_message_ids self'
         \<and> (\<forall>(k, u) \<in> set (forwarded n us). \<forall>i. answers k = Value i \<and> i \<noteq> [] \<longrightarrow>
               i \<in> sent_message_ids self')"
proof (induction us arbitrary: self n)
  case Nil
  show ?case by (simp add: forwarded_Nil)
next
  case (Cons u us)
  show ?case
  proof (cases "Suc n mod 3 = 0 \<and> 50 < length u")
    case False
    from Cons.IH [of self "Suc n"] obtain self' where
      "progress_callbacks self thread sender subj answers (Suc n) us =
           (self', map (\<lambda>(k, u). SendReply thread sender subj (progress_email u)) (forwarded (Suc n) us), None)"
      "sent_message_ids self \<subseteq> sent_message_ids self'"
      "\<forall>(k, u) \<in> set (forwarded (Suc n) us). \<forall>i. answers k = Value i \<and> i \<noteq> [] \<longrightarrow>
               i \<in> sent_message_ids self'"
      by blast
    with False show ?thesis
      by (auto simp: forwarded_Cons)
  next
    case True
    from Cons.IH [of "track_sent (answers (Suc n)) self" "Suc n"] obtain self' where ih:
      "progress_callbacks (track_sent (answers (Suc n)) self) thread sender subj answers (Suc n) us =
           (self', map (\<lambda>(k, u). SendReply thread sender subj (progress_email u)) (forwarded (Suc n) us), None)"
      "sent_message_ids (track_sent (answers (Suc n)) self) \<subseteq> sent_message_ids self'"
      "\<forall>(k, u) \<in> set (forwarded (Suc n) us). \<forall>i. answers k = Value i \<and> i \<noteq> [] \<longrightarrow>
               i \<in> sent_message_ids self'"
      by blast
    from assms(2) have nr: "\<And>e. answers (Suc n) \<noteq> Raised e" by simp
    from True assms(1) nr ih(1)
    have run: "progress_callbacks self thread sender subj answers n (u # us) =
        (self', SendReply thread sender subj (progress_email u)
           # map (\<lambda>(k, u). SendReply thread sender subj (progress_email u)) (forwarded (Suc n) us), None)"
      by (cases "answers (Suc n)") auto
    have here: "i \<in> sent_message_ids (track_sent (answers (Suc n)) self)"
      if "answers (Suc n) = Value i" "i \<noteq> []" for i
      using that by (simp add: track_sent_def)
    have mono: "sent_message_ids self \<subseteq> sent_message_ids (track_sent (answers (Suc n)) self)"
      by (auto simp: track_sent_def)
    from True run ih(2,3) here mono show ?thesis
      by (auto simp: forwarded_Cons)
  qed
qed

lemma forwarded_long: "(k, u) \<in> set (forwarded n us) \<Longrightarrow> 50 < length u \<and> k mod 3 = 0 \<and> u \<in> set us"
  by (auto simp: forwarded_def numbered_def dest: set_zip_rightD)

lemma forwarded_iff:
  "(k, u) \<in> set (forwarded 0 us) \<longleftrightarrow>
     0 < k \<and> k \<le> length us \<and> u = us ! (k - 1) \<and> k mod 3 = 0 \<and> 50 < length u"
proof -
  have nth: "[Suc 0..<Suc 0 + length us] ! i = Suc i" if "i < length us" for i
    using that by (simp del: upt_Suc add: nth_upt)
  have "(k, u) \<in> set (numbered 0 us) \<longleftrightarrow> 0 < k \<and> k \<le> length us \<and> u = us ! (k - 1)"
  proof
    assume "(k, u) \<in> set (numbered 0 us)"
    then obtain i where i: "[Suc 0..<Suc 0 + length us] ! i = k" "us ! i = u" "i < length us"
      unfolding numbered_def in_set_zip by auto
    with nth [of i] have "k = Suc i" by simp
    with i show "0 < k \<and> k \<le> length us \<and> u = us ! (k - 1)" by simp
  next
    assume a: "0 < k \<and> k \<le> length us \<and> u = us ! (k - 1)"
    then have "0 < k" and "k \<le> length us" by simp_all
    then have lt: "k - 1 < length us" by arith
    with nth [of "k - 1"] a have "[Suc 0..<Suc 0 + length us] ! (k - 1) = k" by simp
    with a lt show "(k, u) \<in> set (numbered 0 us)"
      unfolding numbered_def in_set_zip
      by (intro exI [of _ "k - 1"]) (simp del: upt_Suc)
  qed
  then show ?thesis by (auto simp: forwarded_def)
qed

lemma progress_callbacks_only_long:
  "progress_callbacks self thread sender subj answers n us = (self', evs, raised) \<Longrightarrow>
   \<forall>b \<in> set (reply_bodies evs). \<exists>u \<in> set us. b = progress_email u \<and> 50 < length u"
proof (induction us arbitrary: self n self' evs raised)
  case Nil
  then show ?case by simp
next
  case (Cons u us)
  show ?case
  proof (cases "truthy thread \<and> length u > 50 \<and> Suc n mod 3 = 0")
    case False
    with Cons.prems
    have "progress_callbacks self thread sender subj answers (Suc n) us = (self', evs, raised)"
      by auto
    from Cons.IH [OF this] show ?thesis by auto
  next
    case True
    show ?thesis
    proof (cases "\<exists>e. answers (Suc n) = Raised e")
      case True
      with \<open>truthy thread \<and> length u > 50 \<and> Suc n mod 3 = 0\<close> Cons.prems
      have "evs = [SendReply thread sender subj (progress_email u)]"
        by auto
      with \<open>truthy thread \<and> length u > 50 \<and> Suc n mod 3 = 0\<close> show ?thesis by simp
    next
      case False
      obtain s1 e1 r1 where rec:
        "progress_callbacks (track_sent (answers (Suc n)) self) thread sender subj
           answers (Suc n) us = (s1, e1, r1)"
        by (cases "progress_callbacks (track_sent (answers (Suc n)) self) thread sender subj
                     answers (Suc n) us") auto
      with False \<open>truthy thread \<and> length u > 50 \<and> Suc n mod 3 = 0\<close> Cons.prems
      have "evs = SendReply thread sender subj (progress_email u) # e1"
        by (auto split: fetched.splits)
      with Cons.IH [OF rec] \<open>truthy thread \<and> length u > 50 \<and> Suc n mod 3 = 0\<close>
      show ?thesis by auto
    qed
  qed
qed

text \<open>
  C9. Let the thread id be available and let no send raise. Then the progress callback,
  run over the chunks of the agent, sends one reply for each chunk that is every third
  chunk of the stream (chunk number 3, 6, 9, ... among all chunks) and is longer than 50
  characters, in order, with the body \<open>Progress update:\<close>, an empty line and the chunk, and
  sends nothing else; the id that a send returns is in \<open>sent_message_ids\<close> afterwards. In
  every case, with or without a thread id, a reply is sent only for a chunk longer than 50
  characters.
\<close>

theorem progress_every_third_long_chunk:
  "(truthy thread \<and> (\<forall>k e. answers k \<noteq> Raised e) \<longrightarrow>
      snd (progress_callbacks self thread sender subj answers 0 us) =
        (map (\<lambda>(k, u). SendReply thread sender subj (progress_email u)) (forwarded 0 us), None)
      \<and> (\<forall>(k, u) \<in> set (forwarded 0 us). \<forall>i. answers k = Value i \<and> i \<noteq> [] \<longrightarrow>
            i \<in> sent_message_ids (fst (progress_callbacks self thread sender subj answers 0 us))))
   \<and> ((k, u) \<in> set (forwarded 0 us) \<longleftrightarrow>
        0 < k \<and> k \<le> length us \<and> u = us ! (k - 1) \<and> k mod 3 = 0 \<and> 50 < length u)
   \<and> (\<forall>b \<in> set (reply_bodies (fst (snd (progress_callbacks self thread sender subj answers 0 us)))).
        \<exists>u \<in> set us. b = progress_email u \<and> 50 < length u)"
proof (intro conjI impI)
  assume a: "truthy thread \<and> (\<forall>k e. answers k \<noteq> Raised e)"
  then have "truthy thread" and "\<forall>k e. answers k \<noteq> Raised e" by simp_all
  from progress_callbacks_forwarded [OF this, of self sender subj 0 us]
  obtain self' where run: "progress_callbacks self thread sender subj answers 0 us =
      (self', map (\<lambda>(k, u). SendReply thread sender subj (progress_email u)) (forwarded 0 us), None)"
    and ids: "\<forall>(k, u) \<in> set (forwarded 0 us). \<forall>i. answers k = Value i \<and> i \<noteq> [] \<longrightarrow>
        i \<in> sent_message_ids self'"
    by blast
  from run show "snd (progress_callbacks self thread sender subj answers 0 us) =
      (map (\<lambda>(k, u). SendReply thread sender subj (progress_email u)) (forwarded 0 us), None)"
    by simp
  from run ids show "\<forall>(k, u) \<in> set (forwarded 0 us). \<forall>i. answers k = Value i \<and> i \<noteq> [] \<longrightarrow>
      i \<in> sent_message_ids (fst (progress_callbacks self thread sender subj answers 0 us))"
    by simp
next
  show "(k, u) \<in> set (forwarded 0 us) \<longleftrightarrow>
      0 < k \<and> k \<le> length us \<and> u = us ! (k - 1) \<and> k mod 3 = 0 \<and> 50 < length u"
    by (rule forwarded_iff)
next
  obtain s1 e1 r1 where run: "progress_callbacks self thread sender subj answers 0 us = (s1, e1, r1)"
    by (cases "progress_callbacks self thread sender subj answers 0 us") auto
  from progress_callbacks_only_long [OF run] run
  show "\<forall>b \<in> set (reply_bodies (fst (snd (progress_callbacks self thread sender subj answers 0 us)))).
      \<exists>u \<in> set us. b = progress_email u \<and> 50 < length u"
    by simp
qed

text \<open>
  The theorem at the sample stream: only the third chunk is forwarded, and the id of that
  reply is recorded.
\<close>

theorem progress_every_third_long_chunk_witness:
  "snd (progress_callbacks fresh_handler (Some ''thread-1'') ''jonathanmingli@gmail.com'' ''CLAUDE''
          (\<lambda>k. Value ''progress-id'') 0 sample_chunks) =
     ([SendReply (Some ''thread-1'') ''jonathanmingli@gmail.com'' ''CLAUDE''
         (progress_email (replicate 51 (CHR ''x'')))], None)
   \<and> ''progress-id'' \<in> sent_message_ids
        (fst (progress_callbacks fresh_handler (Some ''thread-1'') ''jonathanmingli@gmail.com''
                ''CLAUDE'' (\<lambda>k. Value ''progress-id'') 0 sample_chunks))"
proof -
  have fw: "forwarded 0 sample_chunks = [(3, replicate 51 (CHR ''x''))]"
    by code_simp
  have hyp: "truthy (Some ''thread-1'')
      \<and> (\<forall>k e. (\<lambda>k. Value ''progress-id'' :: string fetched) k \<noteq> Raised e)"
    by simp
  from progress_every_third_long_chunk
    [of "Some ''thread-1''" "\<lambda>k. Value ''progress-id''" fresh_handler
        "''jonathanmingli@gmail.com''" "''CLAUDE''" sample_chunks 3 "replicate 51 (CHR ''x'')"]
    hyp
  have "snd (progress_callbacks fresh_handler (Some ''thread-1'') ''jonathanmingli@gmail.com''
          ''CLAUDE'' (\<lambda>k. Value ''progress-id'') 0 sample_chunks) =
        (map (\<lambda>(k, u). SendReply (Some ''thread-1'') ''jonathanmingli@gmail.com'' ''CLAUDE''
                (progress_email u)) (forwarded 0 sample_chunks), None)"
    and "\<forall>(k, u) \<in> set (forwarded 0 sample_chunks). \<forall>i. Value ''progress-id'' = Value i \<and> i \<noteq> [] \<longrightarrow>
        i \<in> sent_message_ids (fst (progress_callbacks fresh_handler (Some ''thread-1'')
              ''jonathanmingli@gmail.com'' ''CLAUDE'' (\<lambda>k. Value ''progress-id'') 0 sample_chunks))"
    by blast+
  then show ?thesis
    unfolding fw by simp
qed

section \<open>Resolution that is unavailable\<close>

lemma resolve_unavailable:
  "history n = Unavailable \<Longrightarrow> unread n 0 = Unavailable \<Longrightarrow> resolve n = Unavailable"
  by (simp add: resolve_def fallback_in_try_def)

lemma process_notification_unavailable:
  "resolve n = Unavailable \<Longrightarrow>
   fst (snd (process_notification list_h list_m self n)) = []
   \<and> historyId n \<in> processed_history_ids (fst (process_notification list_h list_m self n))
   \<and> processed_messages (fst (process_notification list_h list_m self n)) =
       processed_messages (cleanup_processed_messages list_h list_m (now n) self)
   \<and> sent_message_ids (fst (process_notification list_h list_m self n)) =
       sent_message_ids (cleanup_processed_messages list_h list_m (now n) self)"
  by (simp add: process_notification_def Let_def)

lemma callback_signal:
  "snd (snd (callback list_h list_m self decoded timed_out)) =
     (case decoded of Inl e \<Rightarrow> Nack | Inr n \<Rightarrow> if timed_out then Nack else Ack)"
  by (simp add: callback_def split: sum.splits prod.splits)

lemma callback_decoded:
  "fst (callback list_h list_m self (Inr n) timed_out) = fst (process_notification list_h list_m self n)
   \<and> fst (snd (callback list_h list_m self (Inr n) timed_out)) =
       fst (snd (process_notification list_h list_m self n))"
  by (simp add: callback_def split: prod.splits)

text \<open>
  What the callback does in general. When the resolution of the candidates is unavailable,
  \<open>process_notification\<close> returns normally with the history id claimed and without any
  effect, and the callback answers \<open>ack\<close> unless the wait timed out. The callback answers
  \<open>nack\<close> in two cases only, a payload that cannot be decoded and a wait that times out:
  no failure inside \<open>process_notification\<close> reaches the handler that the comments
  "Only ack after successful processing" and "Negative ack so message can be retried"
  describe.
\<close>

lemma callback_on_unavailable_resolution:
  "(history n = Unavailable \<and> unread n 0 = Unavailable \<longrightarrow> resolve n = Unavailable)
   \<and> (resolve n = Unavailable \<longrightarrow>
        fst (snd (callback list_h list_m self (Inr n) timed_out)) = []
        \<and> snd (snd (callback list_h list_m self (Inr n) timed_out)) =
            (if timed_out then Nack else Ack)
        \<and> historyId n \<in> processed_history_ids (fst (callback list_h list_m self (Inr n) timed_out))
        \<and> processed_messages (fst (callback list_h list_m self (Inr n) timed_out)) =
            processed_messages (cleanup_processed_messages list_h list_m (now n) self)
        \<and> sent_message_ids (fst (callback list_h list_m self (Inr n) timed_out)) =
            sent_message_ids (cleanup_processed_messages list_h list_m (now n) self))
   \<and> (snd (snd (callback list_h list_m self decoded timed_out)) = Nack \<longleftrightarrow>
        (\<exists>e. decoded = Inl e) \<or> timed_out)"
proof (intro conjI impI)
  assume "history n = Unavailable \<and> unread n 0 = Unavailable"
  then show "resolve n = Unavailable"
    by (simp add: resolve_unavailable)
next
  assume r: "resolve n = Unavailable"
  note pn = process_notification_unavailable [OF r, of list_h list_m self]
  from pn show "fst (snd (callback list_h list_m self (Inr n) timed_out)) = []"
    by (simp add: callback_decoded)
  show "snd (snd (callback list_h list_m self (Inr n) timed_out)) = (if timed_out then Nack else Ack)"
    by (simp add: callback_signal)
  from pn show "historyId n \<in> processed_history_ids (fst (callback list_h list_m self (Inr n) timed_out))"
    by (simp add: callback_decoded)
  from pn show "processed_messages (fst (callback list_h list_m self (Inr n) timed_out)) =
      processed_messages (cleanup_processed_messages list_h list_m (now n) self)"
    by (simp add: callback_decoded)
  from pn show "sent_message_ids (fst (callback list_h list_m self (Inr n) timed_out)) =
      sent_message_ids (cleanup_processed_messages list_h list_m (now n) self)"
    by (simp add: callback_decoded)
next
  show "snd (snd (callback list_h list_m self decoded timed_out)) = Nack \<longleftrightarrow>
      (\<exists>e. decoded = Inl e) \<or> timed_out"
    by (cases decoded) (simp_all add: callback_signal)
qed

text \<open>
  C2, at an input on which the code fails it. The claim: when the resolution of the
  candidates is unavailable, the notification is aborted as failed and the callback answers
  \<open>nack\<close>, so that the notification is redelivered. For the notification whose history
  lookup and unread query both end with \<open>None\<close>, delivered to the fresh handler with no
  time-out, \<open>process_notification\<close> ends as \<open>NoMessages\<close> without an exception, and the
  callback answers \<open>ack\<close>, not \<open>nack\<close>: the notification is not redelivered. The history id
  \<open>h3\<close> stays claimed, so that even a second delivery of the same notification would be
  dropped as a duplicate.
\<close>

theorem unavailable_resolution_is_acked:
  "history unavailable_notification = Unavailable
   \<and> unread unavailable_notification 0 = Unavailable
   \<and> resolve unavailable_notification = Unavailable
   \<and> snd (snd (process_notification (sample_order 0) (sample_order 0) fresh_handler
          unavailable_notification)) = NoMessages
   \<and> callback (sample_order 0) (sample_order 0) fresh_handler (Inr unavailable_notification) False =
       (fresh_handler\<lparr>processed_history_ids := {''h3''}\<rparr>, [], Ack)
   \<and> snd (snd (callback (sample_order 0) (sample_order 0) fresh_handler
          (Inr unavailable_notification) False)) \<noteq> Nack
   \<and> snd (snd (process_notification (sample_order 0) (sample_order 0)
          (fresh_handler\<lparr>processed_history_ids := {''h3''}\<rparr>) unavailable_notification)) =
       DuplicateHistory"
  by code_simp

section \<open>One worker alone, and two workers\<close>

text \<open>
  A worker that runs alone, for enough steps, does what \<open>process_notification\<close> does: the
  steps of the workers are the sequential code cut into pieces.
\<close>

lemma pool_step_alone:
  "pool_step list_h list_m \<lparr>shared = self, effects = evs0, workers = [w]\<rparr> 0 =
     (case worker_step list_h list_m self w of
        (self1, evs, w1) \<Rightarrow> \<lparr>shared = self1, effects = evs0 @ evs, workers = [w1]\<rparr>)"
  by (simp add: pool_step_def)

lemma done_alone:
  "run_schedule list_h list_m \<lparr>shared = self, effects = evs0, workers = [Done]\<rparr> (replicate k 0) =
     \<lparr>shared = self, effects = evs0, workers = [Done]\<rparr>"
  by (induction k) (simp_all add: pool_step_alone)

lemma candidates_alone:
  "process_candidates self (observe n) i cands = (self', evs, fl) \<Longrightarrow>
   2 * length cands + 1 \<le> k \<Longrightarrow>
   run_schedule list_h list_m \<lparr>shared = self, effects = evs0, workers = [AtCheck n i cands]\<rparr>
       (replicate k 0) =
     \<lparr>shared = self', effects = evs0 @ evs, workers = [Done]\<rparr>"
proof (induction cands arbitrary: self evs0 i k self' evs fl)
  case Nil
  then obtain k' where k: "k = Suc k'" by (cases k) auto
  from Nil.prems(1) show ?case
    by (simp add: k pool_step_alone done_alone)
next
  case (Cons message_id rest)
  from Cons.prems(2) obtain k1 where k: "k = Suc k1" and k1: "2 * length rest + 2 \<le> k1"
    by (cases k) auto
  show ?case
  proof (cases "message_id \<in> processed_messages self")
    case True
    with Cons.prems(1) have "process_candidates self (observe n) (Suc i) rest = (self', evs, fl)"
      by (auto simp: process_candidate_def split: prod.splits)
    from Cons.IH [OF this, of k1 evs0] k1 True show ?thesis
      by (simp add: k pool_step_alone)
  next
    case False
    from k1 obtain k2 where k1': "k1 = Suc k2" and k2: "2 * length rest + 1 \<le> k2"
      by (cases k1) auto
    obtain s1 e1 f1 where one: "process_unseen self message_id (observe n i) = (s1, e1, f1)"
      by (cases "process_unseen self message_id (observe n i)") auto
    show ?thesis
    proof (cases f1)
      case (Abort e)
      with Cons.prems(1) False one have "self' = s1" "evs = e1"
        by (simp_all add: process_candidate_def)
      with False one Abort show ?thesis
        by (simp add: k k1' pool_step_alone done_alone)
    next
      case Continue
      obtain s2 e2 f2 where more: "process_candidates s1 (observe n) (Suc i) rest = (s2, e2, f2)"
        by (cases "process_candidates s1 (observe n) (Suc i) rest") auto
      with Cons.prems(1) False one Continue have "self' = s2" "evs = e1 @ e2"
        by (simp_all add: process_candidate_def)
      with Cons.IH [OF more k2, of "evs0 @ e1"] False one Continue show ?thesis
        by (simp add: k k1' pool_step_alone)
    qed
  qed
qed

lemma notification_alone:
  assumes "process_notification list_h list_m self n = (self', evs, how)"
    and "2 * length (case resolve n of Value recent_messages \<Rightarrow> recent_messages | _ \<Rightarrow> []) + 2 \<le> k"
  shows "run_schedule list_h list_m \<lparr>shared = self, effects = [], workers = [Start n]\<rparr>
           (replicate k 0) =
         \<lparr>shared = self', effects = evs, workers = [Done]\<rparr>"
proof -
  from assms(2) obtain k1 where k: "k = Suc k1"
    and k1: "2 * length (case resolve n of Value recent_messages \<Rightarrow> recent_messages | _ \<Rightarrow> []) + 1 \<le> k1"
    by (cases k) auto
  define cleaned where "cleaned = cleanup_processed_messages list_h list_m (now n) self"
  define claimed where
    "claimed = cleaned\<lparr>processed_history_ids := insert (historyId n) (processed_history_ids cleaned)\<rparr>"
  show ?thesis
  proof (cases "historyId n \<in> processed_history_ids cleaned")
    case True
    with assms(1) show ?thesis
      by (simp add: k pool_step_alone done_alone process_notification_def cleaned_def [symmetric])
  next
    case False
    show ?thesis
    proof (cases "resolve n")
      case (Value recent_messages)
      obtain s1 e1 f1 where run: "process_candidates claimed (observe n) 0 recent_messages = (s1, e1, f1)"
        by (cases "process_candidates claimed (observe n) 0 recent_messages") auto
      with assms(1) False Value have "self' = s1" "evs = e1"
        by (cases f1; simp add: process_notification_def cleaned_def [symmetric]
            claimed_def [symmetric] Let_def)+
      moreover from k1 Value have "2 * length recent_messages + 1 \<le> k1" by simp
      from candidates_alone [OF run this, of list_h list_m "[]"]
      have "run_schedule list_h list_m \<lparr>shared = claimed, effects = [], workers = [AtCheck n 0 recent_messages]\<rparr>
          (replicate k1 0) = \<lparr>shared = s1, effects = e1, workers = [Done]\<rparr>"
        by simp
      ultimately show ?thesis
        using False Value
        by (simp add: k pool_step_alone cleaned_def [symmetric] claimed_def [symmetric] Let_def)
    next
      case Unavailable
      with assms(1) False show ?thesis
        by (simp add: k pool_step_alone done_alone process_notification_def cleaned_def [symmetric])
    next
      case (Raised e)
      with assms(1) False show ?thesis
        by (simp add: k pool_step_alone done_alone process_notification_def cleaned_def [symmetric])
    qed
  qed
qed

text \<open>
  C1, at a schedule on which it fails. Two notifications with different history ids name
  the same new message \<open>m1\<close>. When the two workers take turns (each claims its history id
  and resolves the candidates, each tests \<open>m1\<close> against \<open>processed_messages\<close> before the
  other has marked it, and each then finishes its pass), the agent is called twice for
  \<open>m1\<close> and the acknowledgment and the final reply are sent twice. When the second worker
  starts after the first has finished, the agent is called once.
\<close>

theorem duplicate_notifications_race:
  "invocations (effects (run_schedule (sample_order 0) (sample_order 0) two_workers
      [0, 1, 0, 1, 0, 1])) = [''m1'', ''m1'']
   \<and> effects (run_schedule (sample_order 0) (sample_order 0) two_workers [0, 1, 0, 1, 0, 1]) =
       [SendReply (Some ''thread-1'') ''jonathanmingli@gmail.com'' ''CLAUDE'' ''ack'',
        AgentInvoked ''m1'' ''do the thing'' ''jonathanmingli@gmail.com'',
        SendReply (Some ''thread-1'') ''jonathanmingli@gmail.com'' ''CLAUDE'' (final_email ''done''),
        SendReply (Some ''thread-1'') ''jonathanmingli@gmail.com'' ''CLAUDE'' ''ack'',
        AgentInvoked ''m1'' ''do the thing'' ''jonathanmingli@gmail.com'',
        SendReply (Some ''thread-1'') ''jonathanmingli@gmail.com'' ''CLAUDE'' (final_email ''done'')]
   \<and> invocations (effects (run_schedule (sample_order 0) (sample_order 0) two_workers
      [0, 0, 0, 1, 1, 1])) = [''m1'']"
  by code_simp

end
